theory Spec2Isabelle
  imports
    Complex_Main
    "HOL-Library.Finite_Map"
    "HOL-Library.Char_ord"
    "HOL-Library.List_Lexorder"
    "HOL-Library.Product_Lexorder"
begin

section \<open>Data model\<close>

text \<open>
  The Python module \<open>src/algorithms.py\<close> keeps a graph as two dictionaries and runs two
  searches over it. Dictionaries are finite maps and node ids are strings.

  Numbers are Python floats, as the annotations of the source say (\<open>weight: float\<close>,
  \<open>x: float\<close>): IEEE 754 binary64 values. A finite one is a real number; the results of
  the arithmetic can also be \<open>inf\<close> and \<open>-inf\<close>. The weights and coordinates that come
  in are finite (a JSON number is), and are written as reals. A JSON number without
  fraction or exponent is read by Python as an \<open>int\<close>, whose arithmetic is exact; the
  model reads it as the float of the same value, which gives the same sums as long as
  they stay below \<open>2^53\<close>. The two signs of zero are not told apart.

  A raised exception is a value. \<open>KeyError\<close> carries the missing key; \<open>OverflowError\<close>
  is what \<open>x ** 2\<close> raises when the square of a finite \<open>x\<close> is out of range.
  \<open>NotANumber\<close> is no exception of the source: it marks the one place where the
  arithmetic produces a NaN (\<open>-inf + inf\<close> in an f-score of \<open>astar\<close>). The source goes on
  from there with a NaN in its heap; the model does not follow it.
\<close>

datatype error = KeyError string | OverflowError | NotANumber

datatype pyfloat = NegInf | Fin real | PosInf

text \<open>The order of the floats, \<open>-inf\<close> below and \<open>inf\<close> above the finite ones.\<close>

instantiation pyfloat :: linorder
begin

definition less_eq_pyfloat :: "pyfloat \<Rightarrow> pyfloat \<Rightarrow> bool" where
  "less_eq_pyfloat a b =
     (case a of
        NegInf \<Rightarrow> True
      | Fin x \<Rightarrow> (case b of NegInf \<Rightarrow> False | Fin y \<Rightarrow> x \<le> y | PosInf \<Rightarrow> True)
      | PosInf \<Rightarrow> (case b of PosInf \<Rightarrow> True | _ \<Rightarrow> False))"

definition less_pyfloat :: "pyfloat \<Rightarrow> pyfloat \<Rightarrow> bool" where
  "less_pyfloat a b = (a \<le> b \<and> \<not> b \<le> a)"

instance
  by standard (auto simp: less_eq_pyfloat_def less_pyfloat_def split: pyfloat.splits)

end


subsection \<open>Float arithmetic\<close>

text \<open>
  An IEEE operation returns the exact result rounded to the nearest float, ties to the
  float with an even significand. \<open>binade x\<close> is the exponent of the power of two at or
  below \<open>\<bar>x\<bar>\<close>, and not less than that of the smallest normal float; the floats around
  \<open>x\<close> are the multiples of \<open>2 powi (binade x - 52)\<close>. A result of magnitude
  \<open>2^1024 - 2^970\<close> or more, half a step above the largest float, becomes infinite.
\<close>

definition round_half_even :: "real \<Rightarrow> int" where
  "round_half_even y =
     (let f = \<lfloor>y\<rfloor> in
      if y - of_int f < 1 / 2 then f
      else if y - of_int f > 1 / 2 then f + 1
      else if even f then f else f + 1)"

definition binade :: "real \<Rightarrow> int" where
  "binade x = max \<lfloor>log 2 \<bar>x\<bar>\<rfloor> (- 1022)"

definition round_to_grid :: "real \<Rightarrow> real" where
  "round_to_grid x =
     (if x = 0 then 0
      else of_int (round_half_even (x / 2 powi (binade x - 52))) * 2 powi (binade x - 52))"

definition overflow_threshold :: real where
  "overflow_threshold = 2 ^ 1024 - 2 ^ 970"

definition to_double :: "real \<Rightarrow> pyfloat" where
  "to_double x =
     (if overflow_threshold \<le> x then PosInf
      else if x \<le> - overflow_threshold then NegInf
      else Fin (round_to_grid x))"

text \<open>
  \<open>a + w\<close> for a table entry or heap key \<open>a\<close> and a weight \<open>w\<close>; \<open>a + b\<close> for two
  floats, where \<open>None\<close> is NaN; \<open>a - b\<close> for two coordinates; \<open>abs\<close>; \<open>x ** 2\<close>
  (only a finite \<open>x\<close> can raise: infinities square to \<open>inf\<close>); \<open>x ** 0.5\<close> for the sum
  of two squares, which is not negative. The C library's \<open>pow\<close> behind \<open>**\<close> is taken to
  round correctly.
\<close>

fun float_add :: "pyfloat \<Rightarrow> real \<Rightarrow> pyfloat" where
  "float_add (Fin a) w = to_double (a + w)"
| "float_add PosInf w = PosInf"
| "float_add NegInf w = NegInf"

fun float_plus :: "pyfloat \<Rightarrow> pyfloat \<Rightarrow> pyfloat option" where
  "float_plus (Fin a) (Fin b) = Some (to_double (a + b))"
| "float_plus PosInf NegInf = None"
| "float_plus NegInf PosInf = None"
| "float_plus PosInf b = Some PosInf"
| "float_plus a PosInf = Some PosInf"
| "float_plus NegInf b = Some NegInf"
| "float_plus a NegInf = Some NegInf"

definition float_sub :: "real \<Rightarrow> real \<Rightarrow> pyfloat" where
  "float_sub a b = to_double (a - b)"

fun float_abs :: "pyfloat \<Rightarrow> pyfloat" where
  "float_abs (Fin x) = Fin \<bar>x\<bar>"
| "float_abs PosInf = PosInf"
| "float_abs NegInf = PosInf"

fun float_square :: "pyfloat \<Rightarrow> error + pyfloat" where
  "float_square (Fin x) =
     (case to_double (x * x) of Fin r \<Rightarrow> Inr (Fin r) | _ \<Rightarrow> Inl OverflowError)"
| "float_square PosInf = Inr PosInf"
| "float_square NegInf = Inr PosInf"

fun float_sqrt :: "pyfloat \<Rightarrow> pyfloat" where
  "float_sqrt (Fin x) = to_double (sqrt x)"
| "float_sqrt PosInf = PosInf"
| "float_sqrt NegInf = PosInf"

record graph =
  adjacency_list :: "(string, (string \<times> real) list) fmap"
  node_positions :: "(string, real \<times> real) fmap"

record path_result =
  path :: "string list"
  distance :: pyfloat
  nodes_explored :: nat
  algorithm :: string

text \<open>
  \<open>execution_time_ms\<close> is a wall-clock reading and is left out of the record.
\<close>

section \<open>Graph\<close>

definition Graph_init :: graph where
  "Graph_init = \<lparr>adjacency_list = fmempty, node_positions = fmempty\<rparr>"

definition add_node :: "graph \<Rightarrow> string \<Rightarrow> real \<Rightarrow> real \<Rightarrow> graph" where
  "add_node g node_id x y =
     (let g1 = (if node_id \<notin> fmdom' (adjacency_list g)
                then g\<lparr>adjacency_list := fmupd node_id [] (adjacency_list g)\<rparr>
                else g)
      in g1\<lparr>node_positions := fmupd node_id (x, y) (node_positions g1)\<rparr>)"

definition get_neighbors :: "graph \<Rightarrow> string \<Rightarrow> (string \<times> real) list" where
  "get_neighbors g node_id =
     (case fmlookup (adjacency_list g) node_id of None \<Rightarrow> [] | Some arcs \<Rightarrow> arcs)"

text \<open>
  \<open>self.adjacency_list[n].append(arc)\<close>. In \<open>add_edge\<close> the key \<open>n\<close> is always present
  at this point, because both endpoints have just been created when they were missing.
\<close>

definition append_arc :: "graph \<Rightarrow> string \<Rightarrow> string \<times> real \<Rightarrow> graph" where
  "append_arc g n arc =
     g\<lparr>adjacency_list := fmupd n (get_neighbors g n @ [arc]) (adjacency_list g)\<rparr>"

definition add_edge :: "graph \<Rightarrow> string \<Rightarrow> string \<Rightarrow> real \<Rightarrow> bool \<Rightarrow> graph" where
  "add_edge g from_node to_node weight bidirectional =
     (let g1 = (if from_node \<notin> fmdom' (adjacency_list g) then add_node g from_node 0 0 else g);
          g2 = (if to_node \<notin> fmdom' (adjacency_list g1) then add_node g1 to_node 0 0 else g1);
          g3 = append_arc g2 from_node (to_node, weight)
      in if bidirectional then append_arc g3 to_node (from_node, weight) else g3)"

subsection \<open>Building a graph from structured input\<close>

text \<open>
  The input of \<open>Graph.from_dict\<close> is parsed JSON. A node item is a dictionary with the
  optional keys \<open>id\<close>, \<open>x\<close>, \<open>y\<close>, or any other value, which is turned into an id by
  \<open>str\<close>; an edge is a dictionary with the optional keys \<open>from\<close>, \<open>to\<close>, \<open>weight\<close>,
  \<open>bidirectional\<close>. An absent key is \<open>None\<close>. Values are taken to have the types of the
  interface (ids are strings, weights and coordinates are numbers).
\<close>

datatype node_item =
    NodeDict "string option" "real option" "real option"
  | NodeBare string

record edge_item =
  edge_from :: "string option"
  edge_to :: "string option"
  edge_weight :: "real option"
  edge_bidirectional :: "bool option"

record graph_data =
  data_nodes :: "node_item list option"
  data_edges :: "edge_item list option"

text \<open>\<open>d.get(key, default)\<close>\<close>

definition dict_get :: "'a option \<Rightarrow> 'a \<Rightarrow> 'a" where
  "dict_get v dflt = (case v of None \<Rightarrow> dflt | Some x \<Rightarrow> x)"

fun add_nodes :: "graph \<Rightarrow> node_item list \<Rightarrow> error + graph" where
  "add_nodes g [] = Inr g"
| "add_nodes g (NodeDict i x y # ns) =
     (case i of
        None \<Rightarrow> Inl (KeyError ''id'')
      | Some node_id \<Rightarrow> add_nodes (add_node g node_id (dict_get x 0) (dict_get y 0)) ns)"
| "add_nodes g (NodeBare s # ns) = add_nodes (add_node g s 0 0) ns"

fun add_edges :: "graph \<Rightarrow> edge_item list \<Rightarrow> error + graph" where
  "add_edges g [] = Inr g"
| "add_edges g (e # es) =
     (case edge_from e of
        None \<Rightarrow> Inl (KeyError ''from'')
      | Some f \<Rightarrow>
          (case edge_to e of
             None \<Rightarrow> Inl (KeyError ''to'')
           | Some t \<Rightarrow>
               add_edges
                 (add_edge g f t (dict_get (edge_weight e) 1) (dict_get (edge_bidirectional e) True))
                 es))"

definition from_dict :: "graph_data \<Rightarrow> error + graph" where
  "from_dict data =
     (case add_nodes Graph_init (dict_get (data_nodes data) []) of
        Inl err \<Rightarrow> Inl err
      | Inr g \<Rightarrow> add_edges g (dict_get (data_edges data) []))"

section \<open>The frontier\<close>

text \<open>
  Both searches keep their frontier in a \<open>heapq\<close> heap of tuples \<open>(key, node id)\<close>.
  Python compares tuples lexicographically and strings by code point, which is the order
  of \<open>pyfloat \<times> string\<close> here. \<open>heapq\<close> belongs to the standard library and is modelled
  by its contract: \<open>heappop\<close> removes and returns a least element. The heap is kept as
  an ascending list, \<open>heappush\<close> inserts in order, and \<open>heappop\<close> takes the head (the
  pattern \<open>(d, u) # pq\<close> in the loops below).
\<close>

type_synonym frontier = "(pyfloat \<times> string) list"

definition heappush :: "frontier \<Rightarrow> pyfloat \<times> string \<Rightarrow> frontier" where
  "heappush heap item = insort item heap"

definition heappop :: "frontier \<Rightarrow> ((pyfloat \<times> string) \<times> frontier) option" where
  "heappop heap = (case heap of [] \<Rightarrow> None | item # rest \<Rightarrow> Some (item, rest))"

section \<open>Path reconstruction\<close>

text \<open>
  \<open>while current is not None: path.append(current); current = previous[current]\<close>.
  The loop follows the predecessor links and need not end (a cycle of links keeps it
  running), so not returning is the value \<open>None\<close> of the outer option. The caller
  reverses the list.
\<close>

partial_function (option) reconstruct ::
  "(string, string option) fmap \<Rightarrow> string option \<Rightarrow> string list \<Rightarrow> (error + string list) option"
where
  "reconstruct previous current path_acc =
     (case current of
        None \<Rightarrow> Some (Inr path_acc)
      | Some c \<Rightarrow>
          (case fmlookup previous c of
             None \<Rightarrow> Some (Inl (KeyError c))
           | Some p \<Rightarrow> reconstruct previous p (path_acc @ [c])))"

section \<open>Uniform-cost search\<close>

type_synonym dijkstra_tables =
  "(string, pyfloat) fmap \<times> (string, string option) fmap \<times> frontier"

text \<open>The \<open>for neighbor, weight in graph.get_neighbors(current_node)\<close> loop.\<close>

fun dijkstra_relax ::
  "string \<Rightarrow> pyfloat \<Rightarrow> (string \<times> real) list \<Rightarrow> dijkstra_tables \<Rightarrow> error + dijkstra_tables"
where
  "dijkstra_relax current_node current_distance [] tables = Inr tables"
| "dijkstra_relax current_node current_distance ((neighbor, weight) # arcs)
      (distances, previous, priority_queue) =
     (let distance = float_add current_distance weight in
      case fmlookup distances neighbor of
        None \<Rightarrow> Inl (KeyError neighbor)
      | Some dn \<Rightarrow>
          if distance < dn
          then dijkstra_relax current_node current_distance arcs
                 (fmupd neighbor distance distances,
                  fmupd neighbor (Some current_node) previous,
                  heappush priority_queue (distance, neighbor))
          else dijkstra_relax current_node current_distance arcs
                 (distances, previous, priority_queue))"

lemma dijkstra_relax_dom:
  "dijkstra_relax u d arcs (ds, pv, pq) = Inr (ds', pv', pq') \<Longrightarrow>
   fmdom' ds' = fmdom' ds"
proof (induction arcs arbitrary: ds pv pq)
  case Nil
  then show ?case by simp
next
  case (Cons a arcs)
  obtain v w where a: "a = (v, w)" by (cases a)
  show ?case
  proof (cases "fmlookup ds v")
    case None
    with Cons.prems a show ?thesis by simp
  next
    case (Some dn)
    then have "v \<in> fmdom' ds" by (simp add: fmlookup_dom'_iff)
    then have "insert v (fmdom' ds) = fmdom' ds" by auto
    with Cons.prems a Some Cons.IH show ?thesis
      by (auto simp: Let_def split: if_splits)
  qed
qed

text \<open>
  The \<open>while priority_queue\<close> loop. The state is the two tables, the heap, the
  \<open>visited\<close> set and \<open>nodes_explored\<close>; the result is the state at the loop's exit
  (the heap is empty, or \<open>break\<close> at the target).
\<close>

function dijkstra_loop ::
  "graph \<Rightarrow> string \<Rightarrow>
   (string, pyfloat) fmap \<times> (string, string option) fmap \<times> frontier \<times> string set \<times> nat \<Rightarrow>
   error + ((string, pyfloat) fmap \<times> (string, string option) fmap \<times> nat)"
where
  "dijkstra_loop g end (distances, previous, [], visited, n) = Inr (distances, previous, n)"
| "dijkstra_loop g end (distances, previous, (current_distance, current_node) # pq, visited, n) =
     (if current_node \<in> visited
      then dijkstra_loop g end (distances, previous, pq, visited, n)
      else if current_node = end
      then Inr (distances, previous, Suc n)
      else
        case fmlookup distances current_node of
          None \<Rightarrow> Inl (KeyError current_node)
        | Some dc \<Rightarrow>
            if current_distance > dc
            then dijkstra_loop g end (distances, previous, pq, insert current_node visited, Suc n)
            else
              (case dijkstra_relax current_node current_distance (get_neighbors g current_node)
                      (distances, previous, pq) of
                 Inl err \<Rightarrow> Inl err
               | Inr (distances', previous', pq') \<Rightarrow>
                   dijkstra_loop g end
                     (distances', previous', pq', insert current_node visited, Suc n)))"
  by pat_completeness auto
termination
proof (relation "measures [\<lambda>(g, e, ds, pv, pq, visited, n). card (fmdom' ds - visited),
                           \<lambda>(g, e, ds, pv, pq, visited, n). length pq]", goal_cases)
  case 1
  then show ?case by simp
next
  case 2
  then show ?case by simp
next
  case (3 g e ds pv d u pq visited n dc)
  then have "u \<in> fmdom' ds - visited" by (simp add: fmlookup_dom'_iff)
  then have "card (fmdom' ds - insert u visited) < card (fmdom' ds - visited)"
    by (intro psubset_card_mono) auto
  then show ?case by simp
next
  case (4 g e ds pv d u pq visited n dc tables ds' rest pv' pq')
  then have dom: "fmdom' ds' = fmdom' ds"
    using dijkstra_relax_dom by metis
  from 4 have "u \<in> fmdom' ds - visited" by (simp add: fmlookup_dom'_iff)
  then have "card (fmdom' ds - insert u visited) < card (fmdom' ds - visited)"
    by (intro psubset_card_mono) auto
  with dom show ?case by simp
qed

text \<open>
  \<open>if distances[end] == float('inf'): return None\<close>; any other entry, \<open>-inf\<close> too, is
  returned as the distance.
\<close>

definition dijkstra :: "graph \<Rightarrow> string \<Rightarrow> string \<Rightarrow> (error + path_result option) option" where
  "dijkstra g start end =
     (if start \<notin> fmdom' (adjacency_list g) \<or> end \<notin> fmdom' (adjacency_list g)
      then Some (Inr None)
      else
        let distances = fmupd start (Fin 0) (fmmap (\<lambda>_. PosInf) (adjacency_list g));
            previous = fmmap (\<lambda>_. None) (adjacency_list g)
        in case dijkstra_loop g end (distances, previous, [(Fin 0, start)], {}, 0) of
             Inl err \<Rightarrow> Some (Inl err)
           | Inr (distances', previous', n) \<Rightarrow>
               (case fmlookup distances' end of
                  None \<Rightarrow> Some (Inl (KeyError end))
                | Some d \<Rightarrow>
                    if d = PosInf then Some (Inr None)
                    else
                      (case reconstruct previous' (Some end) [] of
                         None \<Rightarrow> None
                       | Some (Inl err) \<Rightarrow> Some (Inl err)
                       | Some (Inr p) \<Rightarrow>
                           Some (Inr (Some \<lparr>path = rev p, distance = d,
                                            nodes_explored = n, algorithm = ''dijkstra''\<rparr>)))))"

section \<open>Guided search\<close>

text \<open>
  Both estimates return 0 when a position is missing. \<open>euclidean_heuristic\<close> raises
  \<open>OverflowError\<close> when the square of a coordinate difference is out of range;
  \<open>manhattan_heuristic\<close> raises nothing. Either can return \<open>inf\<close>.
\<close>

definition euclidean_heuristic :: "graph \<Rightarrow> string \<Rightarrow> string \<Rightarrow> error + pyfloat" where
  "euclidean_heuristic g node goal =
     (case fmlookup (node_positions g) node of
        None \<Rightarrow> Inr (Fin 0)
      | Some (x1, y1) \<Rightarrow>
          (case fmlookup (node_positions g) goal of
             None \<Rightarrow> Inr (Fin 0)
           | Some (x2, y2) \<Rightarrow>
               (case float_square (float_sub x2 x1) of
                  Inl err \<Rightarrow> Inl err
                | Inr sx \<Rightarrow>
                    (case float_square (float_sub y2 y1) of
                       Inl err \<Rightarrow> Inl err
                     | Inr sy \<Rightarrow>
                         (case float_plus sx sy of
                            None \<Rightarrow> Inl NotANumber
                          | Some s \<Rightarrow> Inr (float_sqrt s))))))"

definition manhattan_heuristic :: "graph \<Rightarrow> string \<Rightarrow> string \<Rightarrow> error + pyfloat" where
  "manhattan_heuristic g node goal =
     (case fmlookup (node_positions g) node of
        None \<Rightarrow> Inr (Fin 0)
      | Some (x1, y1) \<Rightarrow>
          (case fmlookup (node_positions g) goal of
             None \<Rightarrow> Inr (Fin 0)
           | Some (x2, y2) \<Rightarrow>
               (case float_plus (float_abs (float_sub x2 x1)) (float_abs (float_sub y2 y1)) of
                  None \<Rightarrow> Inl NotANumber
                | Some s \<Rightarrow> Inr s)))"

text \<open>
  \<open>if heuristic == "manhattan": ... else: heuristic_fn = euclidean_heuristic\<close>
\<close>

definition select_heuristic :: "string \<Rightarrow> graph \<Rightarrow> string \<Rightarrow> string \<Rightarrow> error + pyfloat" where
  "select_heuristic heuristic =
     (if heuristic = ''manhattan'' then manhattan_heuristic else euclidean_heuristic)"

type_synonym astar_tables =
  "(string, pyfloat) fmap \<times> (string, pyfloat) fmap \<times> (string, string option) fmap \<times>
   frontier \<times> string set"

text \<open>
  The \<open>for neighbor, weight in graph.get_neighbors(current)\<close> loop; \<open>h\<close> is
  \<open>\<lambda>n. heuristic_fn(graph, n, end)\<close>. The tables are \<open>g_score\<close>, \<open>f_score\<close>,
  \<open>previous\<close>, \<open>open_set\<close> and \<open>open_set_hash\<close>.
\<close>

fun astar_relax ::
  "(string \<Rightarrow> error + pyfloat) \<Rightarrow> string \<Rightarrow> string set \<Rightarrow> (string \<times> real) list \<Rightarrow>
   astar_tables \<Rightarrow> error + astar_tables"
where
  "astar_relax h current closed_set [] tables = Inr tables"
| "astar_relax h current closed_set ((neighbor, weight) # arcs)
      (g_score, f_score, previous, open_set, open_set_hash) =
     (if neighbor \<in> closed_set
      then astar_relax h current closed_set arcs
             (g_score, f_score, previous, open_set, open_set_hash)
      else
        case fmlookup g_score current of
          None \<Rightarrow> Inl (KeyError current)
        | Some gc \<Rightarrow>
            let tentative_g = float_add gc weight in
            (case fmlookup g_score neighbor of
               None \<Rightarrow> Inl (KeyError neighbor)
             | Some gn \<Rightarrow>
                 if tentative_g < gn
                 then
                   let previous' = fmupd neighbor (Some current) previous;
                       g_score' = fmupd neighbor tentative_g g_score
                   in (case h neighbor of
                         Inl err \<Rightarrow> Inl err
                       | Inr hn \<Rightarrow>
                           (case float_plus tentative_g hn of
                              None \<Rightarrow> Inl NotANumber
                            | Some f \<Rightarrow>
                                let f_score' = fmupd neighbor f f_score
                                in if neighbor \<notin> open_set_hash
                                   then astar_relax h current closed_set arcs
                                          (g_score', f_score', previous',
                                           heappush open_set (f, neighbor),
                                           insert neighbor open_set_hash)
                                   else astar_relax h current closed_set arcs
                                          (g_score', f_score', previous', open_set,
                                           open_set_hash)))
                 else astar_relax h current closed_set arcs
                        (g_score, f_score, previous, open_set, open_set_hash)))"

lemma astar_relax_measure:
  "astar_relax h u cl arcs (gs, fs, pv, os, hs) = Inr (gs', fs', pv', os', hs') \<Longrightarrow>
   fmdom' gs' = fmdom' gs \<and>
   card (fmdom' gs - (cl \<union> hs')) + length os' \<le> card (fmdom' gs - (cl \<union> hs)) + length os"
proof (induction arcs arbitrary: gs fs pv os hs)
  case Nil
  then show ?case by simp
next
  case (Cons a arcs)
  obtain v w where a: "a = (v, w)" by (cases a)
  show ?case
  proof (cases "v \<in> cl")
    case True
    with Cons.prems a Cons.IH show ?thesis by simp
  next
    case False
    note ncl = this
    from Cons.prems a ncl obtain gc gn where
      gc: "fmlookup gs u = Some gc" and gn: "fmlookup gs v = Some gn"
      by (auto simp: Let_def split: option.splits)
    have vdom: "v \<in> fmdom' gs" using gn by (simp add: fmlookup_dom'_iff)
    then have ins: "insert v (fmdom' gs) = fmdom' gs" by auto
    show ?thesis
    proof (cases "float_add gc w < gn")
      case False
      with Cons.prems a ncl gc gn Cons.IH show ?thesis by (simp add: Let_def)
    next
      case True
      note lt = this
      from Cons.prems a ncl gc gn lt obtain hn f where
        hn: "h v = Inr hn" and f: "float_plus (float_add gc w) hn = Some f"
        by (auto simp: Let_def split: sum.splits option.splits)
      show ?thesis
      proof (cases "v \<in> hs")
        case True
        with Cons.prems a ncl gc gn lt hn f
        have "astar_relax h u cl arcs
                (fmupd v (float_add gc w) gs, fmupd v f fs, fmupd v (Some u) pv, os, hs)
              = Inr (gs', fs', pv', os', hs')"
          by (simp add: Let_def)
        from Cons.IH[OF this] ins show ?thesis by simp
      next
        case False
        with Cons.prems a ncl gc gn lt hn f
        have "astar_relax h u cl arcs
                (fmupd v (float_add gc w) gs, fmupd v f fs, fmupd v (Some u) pv,
                 heappush os (f, v), insert v hs)
              = Inr (gs', fs', pv', os', hs')"
          by (simp add: Let_def)
        from Cons.IH[OF this] ins
        have dom: "fmdom' gs' = fmdom' gs"
          and le: "card (fmdom' gs - (cl \<union> hs')) + length os'
                   \<le> card (fmdom' gs - (cl \<union> insert v hs)) + Suc (length os)"
          by (simp_all add: heappush_def)
        have "v \<in> fmdom' gs - (cl \<union> hs)" using vdom ncl False by simp
        then have "card (fmdom' gs - (cl \<union> insert v hs)) < card (fmdom' gs - (cl \<union> hs))"
          by (intro psubset_card_mono) auto
        with dom le show ?thesis by simp
      qed
    qed
  qed
qed

text \<open>
  The \<open>while open_set\<close> loop. It returns \<open>None\<close> when the heap runs empty, and the
  tables at the moment the target is popped otherwise; \<open>astar\<close> below reconstructs the
  path from them, as the body of \<open>if current == end\<close> does.
\<close>

function astar_loop ::
  "graph \<Rightarrow> string \<Rightarrow> (string \<Rightarrow> error + pyfloat) \<Rightarrow>
   (string, pyfloat) fmap \<times> (string, pyfloat) fmap \<times> (string, string option) fmap \<times>
     frontier \<times> string set \<times> string set \<times> nat \<Rightarrow>
   error + ((string, pyfloat) fmap \<times> (string, string option) fmap \<times> nat) option"
where
  "astar_loop g end h (g_score, f_score, previous, [], open_set_hash, closed_set, n) = Inr None"
| "astar_loop g end h
      (g_score, f_score, previous, (f, current) # open_set, open_set_hash, closed_set, n) =
     (if current \<notin> open_set_hash
      then astar_loop g end h
             (g_score, f_score, previous, open_set, open_set_hash, closed_set, n)
      else if current = end
      then Inr (Some (g_score, previous, Suc n))
      else
        case astar_relax h current (insert current closed_set) (get_neighbors g current)
               (g_score, f_score, previous, open_set, open_set_hash - {current}) of
          Inl err \<Rightarrow> Inl err
        | Inr (g_score', f_score', previous', open_set', open_set_hash') \<Rightarrow>
            astar_loop g end h
              (g_score', f_score', previous', open_set', open_set_hash',
               insert current closed_set, Suc n))"
  by pat_completeness auto
termination
proof (relation "measure (\<lambda>(g, e, h, gs, fs, pv, os, hs, cl, n).
                   card (fmdom' gs - (cl \<union> hs)) + length os)", goal_cases)
  case 1
  then show ?case by simp
next
  case 2
  then show ?case by simp
next
  case (3 g e h gs fs pv f u os hs cl n tables gs' r1 fs' r2 pv' r3 os' hs')
  then have rel: "astar_relax h u (insert u cl) (get_neighbors g u) (gs, fs, pv, os, hs - {u})
                  = Inr (gs', fs', pv', os', hs')"
    by simp
  from astar_relax_measure[OF rel]
  have dom: "fmdom' gs' = fmdom' gs"
    and le: "card (fmdom' gs - (insert u cl \<union> hs')) + length os'
             \<le> card (fmdom' gs - (insert u cl \<union> (hs - {u}))) + length os"
    by simp_all
  from 3 have "u \<in> hs" by simp
  then have "insert u cl \<union> (hs - {u}) = insert u (cl \<union> hs)" by auto
  moreover have "card (fmdom' gs - insert u (cl \<union> hs)) \<le> card (fmdom' gs - (cl \<union> hs))"
    by (intro card_mono) auto
  ultimately show ?case using dom le by simp
qed

text \<open>
  \<open>f_score[start] = heuristic_fn(graph, start, end)\<close> is evaluated before the loop, and
  can raise.
\<close>

definition astar ::
  "graph \<Rightarrow> string \<Rightarrow> string \<Rightarrow> string \<Rightarrow> (error + path_result option) option"
where
  "astar g start end heuristic =
     (if start \<notin> fmdom' (adjacency_list g) \<or> end \<notin> fmdom' (adjacency_list g)
      then Some (Inr None)
      else
        let heuristic_fn = select_heuristic heuristic;
            g_score = fmupd start (Fin 0) (fmmap (\<lambda>_. PosInf) (adjacency_list g))
        in case heuristic_fn g start end of
             Inl err \<Rightarrow> Some (Inl err)
           | Inr f_start \<Rightarrow>
               let f_score = fmupd start f_start (fmmap (\<lambda>_. PosInf) (adjacency_list g));
                   previous = fmmap (\<lambda>_. None) (adjacency_list g)
               in case astar_loop g end (\<lambda>n. heuristic_fn g n end)
                         (g_score, f_score, previous, [(f_start, start)], {start}, {}, 0) of
                    Inl err \<Rightarrow> Some (Inl err)
                  | Inr None \<Rightarrow> Some (Inr None)
                  | Inr (Some (g_score', previous', n)) \<Rightarrow>
                      (case reconstruct previous' (Some end) [] of
                         None \<Rightarrow> None
                       | Some (Inl err) \<Rightarrow> Some (Inl err)
                       | Some (Inr p) \<Rightarrow>
                           (case fmlookup g_score' end of
                              None \<Rightarrow> Some (Inl (KeyError end))
                            | Some d \<Rightarrow>
                                Some (Inr (Some \<lparr>path = rev p, distance = d,
                                                 nodes_explored = n,
                                                 algorithm = ''astar_'' @ heuristic\<rparr>)))))"

section \<open>The guided-search endpoint\<close>

text \<open>
  \<open>find_path_astar\<close> of \<open>app.py\<close>, from the parsed request body to the response. The
  body is \<open>None\<close> when there is none; a dictionary is a record of its optional keys,
  and the one with no key stands for the empty dictionary. Any exception becomes the
  500 response; a search that does not return gives no response.
\<close>

record astar_request =
  req_graph :: "graph_data option"
  req_start :: "string option"
  req_end :: "string option"
  req_heuristic :: "string option"

datatype bad_request = NoJsonData | MissingField string | InvalidHeuristic

datatype response =
    Success path_result
  | BadRequest bad_request
  | NotFound string string
  | ServerError error

definition find_path_astar :: "astar_request option \<Rightarrow> response option" where
  "find_path_astar request =
     (case request of
        None \<Rightarrow> Some (BadRequest NoJsonData)
      | Some data \<Rightarrow>
          if req_graph data = None \<and> req_start data = None \<and> req_end data = None \<and>
             req_heuristic data = None
          then Some (BadRequest NoJsonData)
          else
            case req_graph data of
              None \<Rightarrow> Some (BadRequest (MissingField ''graph''))
            | Some graph_input \<Rightarrow>
                (case req_start data of
                   None \<Rightarrow> Some (BadRequest (MissingField ''start''))
                 | Some start \<Rightarrow>
                     (case req_end data of
                        None \<Rightarrow> Some (BadRequest (MissingField ''end''))
                      | Some end \<Rightarrow>
                          (case from_dict graph_input of
                             Inl err \<Rightarrow> Some (ServerError err)
                           | Inr g \<Rightarrow>
                               let heuristic = dict_get (req_heuristic data) ''euclidean'' in
                               if heuristic \<notin> set [''euclidean'', ''manhattan'']
                               then Some (BadRequest InvalidHeuristic)
                               else
                                 (case astar g start end heuristic of
                                    None \<Rightarrow> None
                                  | Some (Inl err) \<Rightarrow> Some (ServerError err)
                                  | Some (Inr None) \<Rightarrow> Some (NotFound start end)
                                  | Some (Inr (Some result)) \<Rightarrow> Some (Success result))))))"

section \<open>Vocabulary of the properties\<close>

text \<open>
  The keys of the adjacency mapping; a graph is well formed when every arc ends at a key;
  \<open>built\<close> are the graphs that the constructor, \<open>add_node\<close> and \<open>add_edge\<close> produce.
\<close>

abbreviation graph_keys :: "graph \<Rightarrow> string set" where
  "graph_keys g \<equiv> fmdom' (adjacency_list g)"

definition wf_graph :: "graph \<Rightarrow> bool" where
  "wf_graph g = (\<forall>u \<in> graph_keys g. \<forall>arc \<in> set (get_neighbors g u). fst arc \<in> graph_keys g)"

inductive built :: "graph \<Rightarrow> bool" where
  built_init: "built Graph_init"
| built_add_node: "built g \<Longrightarrow> built (add_node g node_id x y)"
| built_add_edge: "built g \<Longrightarrow> built (add_edge g from_node to_node weight bidirectional)"

text \<open>
  The structured input with every absent optional field written out as its default, and
  the inputs in which a required key is absent.
\<close>

fun with_defaults_node :: "node_item \<Rightarrow> node_item" where
  "with_defaults_node (NodeDict i x y) = NodeDict i (Some (dict_get x 0)) (Some (dict_get y 0))"
| "with_defaults_node (NodeBare s) = NodeBare s"

definition with_defaults_edge :: "edge_item \<Rightarrow> edge_item" where
  "with_defaults_edge e =
     e\<lparr>edge_weight := Some (dict_get (edge_weight e) 1),
       edge_bidirectional := Some (dict_get (edge_bidirectional e) True)\<rparr>"

definition with_defaults :: "graph_data \<Rightarrow> graph_data" where
  "with_defaults d =
     \<lparr>data_nodes = Some (map with_defaults_node (dict_get (data_nodes d) [])),
      data_edges = Some (map with_defaults_edge (dict_get (data_edges d) []))\<rparr>"

fun node_lacks_id :: "node_item \<Rightarrow> bool" where
  "node_lacks_id (NodeDict None x y) = True"
| "node_lacks_id _ = False"

definition edge_lacks_endpoint :: "edge_item \<Rightarrow> bool" where
  "edge_lacks_endpoint e = (edge_from e = None \<or> edge_to e = None)"

definition lacks_required_key :: "graph_data \<Rightarrow> bool" where
  "lacks_required_key d =
     (list_ex node_lacks_id (dict_get (data_nodes d) []) \<or>
      list_ex edge_lacks_endpoint (dict_get (data_edges d) []))"

text \<open>
  What the input says about a graph, read with the defaults of the interface: the id and
  the position of a node item (absent \<open>x\<close> and \<open>y\<close> are 0, a bare id sits at the
  origin); the position declared for an id, which is that of the last item with this id;
  the ids that occur as an endpoint of an edge; and the arcs that one edge contributes to
  the neighbours of a node \<open>u\<close> (an absent weight is 1, an edge is bidirectional unless
  the input says otherwise).
\<close>

fun item_id :: "node_item \<Rightarrow> string option" where
  "item_id (NodeDict i x y) = i"
| "item_id (NodeBare s) = Some s"

fun item_position :: "node_item \<Rightarrow> real \<times> real" where
  "item_position (NodeDict i x y) =
     (case x of None \<Rightarrow> 0 | Some x' \<Rightarrow> x', case y of None \<Rightarrow> 0 | Some y' \<Rightarrow> y')"
| "item_position (NodeBare s) = (0, 0)"

fun declared_position :: "node_item list \<Rightarrow> string \<Rightarrow> (real \<times> real) option" where
  "declared_position [] i = None"
| "declared_position (n # ns) i =
     (case declared_position ns i of
        Some p \<Rightarrow> Some p
      | None \<Rightarrow> if item_id n = Some i then Some (item_position n) else None)"

definition declared_ids :: "node_item list \<Rightarrow> string set" where
  "declared_ids ns = {i. Some i \<in> item_id ` set ns}"

definition edge_endpoints :: "edge_item list \<Rightarrow> string set" where
  "edge_endpoints es = {i. Some i \<in> edge_from ` set es \<or> Some i \<in> edge_to ` set es}"

definition edge_arcs :: "string \<Rightarrow> edge_item \<Rightarrow> (string \<times> real) list" where
  "edge_arcs u e =
     (case (edge_from e, edge_to e) of
        (Some f, Some t) \<Rightarrow>
          (let w = (case edge_weight e of None \<Rightarrow> 1 | Some w' \<Rightarrow> w');
               b = (case edge_bidirectional e of None \<Rightarrow> True | Some b' \<Rightarrow> b')
           in (if u = f then [(t, w)] else []) @ (if b \<and> u = t then [(f, w)] else []))
      | _ \<Rightarrow> [])"

text \<open>An input that leaves out every optional field at least once.\<close>

definition sparse_data :: graph_data where
  "sparse_data =
     \<lparr>data_nodes = Some [NodeDict (Some ''A'') None None, NodeDict (Some ''B'') (Some 3) None,
                         NodeDict (Some ''C'') None (Some 4), NodeBare ''D''],
      data_edges = Some
        [\<lparr>edge_from = Some ''A'', edge_to = Some ''B'', edge_weight = None,
          edge_bidirectional = None\<rparr>,
         \<lparr>edge_from = Some ''B'', edge_to = Some ''C'', edge_weight = Some 2,
          edge_bidirectional = Some False\<rparr>,
         \<lparr>edge_from = Some ''C'', edge_to = Some ''E'', edge_weight = None,
          edge_bidirectional = Some True\<rparr>]\<rparr>"

text \<open>Two inputs used as examples, with the graphs they build.\<close>

definition edge :: "string \<Rightarrow> string \<Rightarrow> real \<Rightarrow> edge_item" where
  "edge f t w = \<lparr>edge_from = Some f, edge_to = Some t, edge_weight = Some w, edge_bidirectional = None\<rparr>"

definition stale_data :: graph_data where
  "stale_data = \<lparr>data_nodes = None, data_edges = Some
     [edge ''S'' ''A'' 10, edge ''S'' ''B'' 1, edge ''B'' ''A'' 1, edge ''A'' ''E'' 1, edge ''S'' ''E'' 5]\<rparr>"

definition stale_graph :: graph where
  "stale_graph =
     add_edge (add_edge (add_edge (add_edge (add_edge Graph_init
       ''S'' ''A'' 10 True) ''S'' ''B'' 1 True) ''B'' ''A'' 1 True) ''A'' ''E'' 1 True) ''S'' ''E'' 5 True"

definition line_data :: graph_data where
  "line_data = \<lparr>data_nodes = Some [NodeDict (Some ''A'') (Some 0) (Some 0),
        NodeDict (Some ''B'') (Some 1) (Some 0), NodeDict (Some ''C'') (Some 2) (Some 0)],
      data_edges = Some [edge ''A'' ''B'' 1, edge ''B'' ''C'' 2, edge ''A'' ''C'' 5]\<rparr>"

definition line_graph :: graph where
  "line_graph =
     add_edge (add_edge (add_edge (add_node (add_node (add_node Graph_init
       ''A'' 0 0) ''B'' 1 0) ''C'' 2 0) ''A'' ''B'' 1 True) ''B'' ''C'' 2 True) ''A'' ''C'' 5 True"

text \<open>
  \<open>path_from g s p w d t\<close>: the node sequence \<open>p\<close> is a path of the graph from \<open>s\<close> to
  \<open>t\<close> along stored arcs; \<open>w\<close> is the total of the arcs' weights as a real number, and
  \<open>d\<close> is the float that adding the weights one after the other, from the start, gives.
  Parallel arcs give one node sequence several weights.
\<close>

inductive path_from ::
  "graph \<Rightarrow> string \<Rightarrow> string list \<Rightarrow> real \<Rightarrow> pyfloat \<Rightarrow> string \<Rightarrow> bool"
  for g :: graph and s :: string
where
  path_start: "path_from g s [s] 0 (Fin 0) s"
| path_arc: "path_from g s p w d u \<Longrightarrow> (v, x) \<in> set (get_neighbors g u) \<Longrightarrow>
             path_from g s (p @ [v]) (w + x) (float_add d x) v"

code_pred path_from .

definition reachable :: "graph \<Rightarrow> string \<Rightarrow> string \<Rightarrow> bool" where
  "reachable g s t = (\<exists>p w d. path_from g s p w d t)"

text \<open>
  What both loops keep true whatever the weights are: the tables have the graph's keys, and
  only nodes that the start reaches leave the initial distance \<open>inf\<close> or enter the
  frontier.
\<close>

definition dijkstra_reach_inv ::
  "graph \<Rightarrow> string \<Rightarrow> (string, pyfloat) fmap \<Rightarrow> frontier \<Rightarrow> bool" where
  "dijkstra_reach_inv g s ds pq =
     (fmdom' ds = graph_keys g \<and>
      (\<forall>v d. fmlookup ds v = Some d \<and> d \<noteq> PosInf \<longrightarrow> reachable g s v) \<and>
      (\<forall>item \<in> set pq. snd item \<in> graph_keys g \<and> reachable g s (snd item)))"

definition astar_reach_inv ::
  "graph \<Rightarrow> string \<Rightarrow> (string, pyfloat) fmap \<Rightarrow> string set \<Rightarrow> bool" where
  "astar_reach_inv g s gs hs =
     (fmdom' gs = graph_keys g \<and> (\<forall>u \<in> hs. u \<in> graph_keys g \<and> reachable g s u))"

text \<open>The collinear example with one more node that no arc touches.\<close>

definition island_graph :: graph where
  "island_graph = add_node line_graph ''Z'' 7 7"

text \<open>No stored arc has a negative weight.\<close>

definition nonneg_weights :: "graph \<Rightarrow> bool" where
  "nonneg_weights g = (\<forall>u. \<forall>arc \<in> set (get_neighbors g u). 0 \<le> snd arc)"

text \<open>Two nodes far apart and no edge.\<close>

definition far_graph :: graph where
  "far_graph = add_node (add_node Graph_init ''A'' 0 0) ''Z'' (2 ^ 600) 0"

text \<open>
  The floats that a distance can be when no weight is negative: \<open>inf\<close>, or a finite
  float that is not negative.
\<close>

fun float_ok :: "pyfloat \<Rightarrow> bool" where
  "float_ok (Fin x) = (0 \<le> x \<and> round_to_grid x = x)"
| "float_ok PosInf = True"
| "float_ok NegInf = False"

text \<open>Every stored weight is a whole number.\<close>

definition whole_weights :: "graph \<Rightarrow> bool" where
  "whole_weights g = (\<forall>u. \<forall>arc \<in> set (get_neighbors g u). snd arc \<in> \<nat>)"

text \<open>Two arcs in a row, each of the weight \<open>2^1023\<close>.\<close>

definition huge :: real where
  "huge = 2 ^ 1023"

definition overflow_graph :: graph where
  "overflow_graph =
     add_edge (add_edge Graph_init ''S'' ''A'' huge False) ''A'' ''E'' huge False"

text \<open>
  \<open>chain g pv vis s v p w d\<close>: following the predecessor links \<open>pv\<close> from \<open>v\<close> back to
  the start \<open>s\<close> runs through the nodes of \<open>p\<close> in reverse; all of them but \<open>v\<close> are
  visited, each link is an arc of the graph, and the arcs' weights add up to \<open>w\<close> as
  reals and to \<open>d\<close> as floats.
\<close>

inductive chain ::
  "graph \<Rightarrow> (string, string option) fmap \<Rightarrow> string set \<Rightarrow> string \<Rightarrow>
   string \<Rightarrow> string list \<Rightarrow> real \<Rightarrow> pyfloat \<Rightarrow> bool"
  for g :: graph and pv :: "(string, string option) fmap" and vis :: "string set" and s :: string
where
  chain_start: "fmlookup pv s = Some None \<Longrightarrow> chain g pv vis s s [s] 0 (Fin 0)"
| chain_step: "chain g pv vis s u p w d \<Longrightarrow> u \<in> vis \<Longrightarrow> fmlookup pv v = Some (Some u) \<Longrightarrow>
               (v, x) \<in> set (get_neighbors g u) \<Longrightarrow>
               chain g pv vis s v (p @ [v]) (w + x) (float_add d x)"

text \<open>The parts of the invariant of the loop of \<open>dijkstra\<close> under non-negative weights.\<close>

definition inv_tables ::
  "graph \<Rightarrow> string \<Rightarrow> (string, pyfloat) fmap \<Rightarrow> (string, string option) fmap \<Rightarrow> bool" where
  "inv_tables g s ds pv =
     (fmdom' ds = graph_keys g \<and> fmlookup ds s = Some (Fin 0) \<and> fmlookup pv s = Some None \<and>
      (\<forall>v d. fmlookup ds v = Some d \<longrightarrow> float_ok d))"

definition inv_queue :: "pyfloat \<Rightarrow> (string, pyfloat) fmap \<Rightarrow> frontier \<Rightarrow> bool" where
  "inv_queue lb ds pq =
     (sorted pq \<and> Fin 0 \<le> lb \<and>
      (\<forall>item \<in> set pq. lb \<le> fst item \<and> fst item \<noteq> PosInf \<and>
         (\<exists>dv. fmlookup ds (snd item) = Some dv \<and> dv \<le> fst item)))"

definition inv_visited ::
  "graph \<Rightarrow> string \<Rightarrow> pyfloat \<Rightarrow> string set \<Rightarrow> (string, pyfloat) fmap \<Rightarrow> bool" where
  "inv_visited g s lb vis ds =
     (\<forall>x \<in> vis. \<exists>dx. fmlookup ds x = Some dx \<and> dx \<le> lb \<and> dx \<noteq> PosInf \<and>
        (\<forall>p w d'. path_from g s p w d' x \<longrightarrow> dx \<le> d'))"

definition inv_finite ::
  "graph \<Rightarrow> string \<Rightarrow> string set \<Rightarrow> (string, pyfloat) fmap \<Rightarrow> (string, string option) fmap \<Rightarrow>
   frontier \<Rightarrow> bool" where
  "inv_finite g s vis ds pv pq =
     (\<forall>v dv. fmlookup ds v = Some dv \<and> dv \<noteq> PosInf \<longrightarrow>
        (v \<in> vis \<or> (dv, v) \<in> set pq) \<and> (\<exists>p w. chain g pv vis s v p w dv))"

definition inv_relaxed :: "graph \<Rightarrow> string set \<Rightarrow> (string, pyfloat) fmap \<Rightarrow> bool" where
  "inv_relaxed g finished ds =
     (\<forall>x \<in> finished. \<forall>arc \<in> set (get_neighbors g x). \<forall>dx. fmlookup ds x = Some dx \<longrightarrow>
        (\<exists>dv. fmlookup ds (fst arc) = Some dv \<and> dv \<le> float_add dx (snd arc)))"

definition dinv ::
  "graph \<Rightarrow> string \<Rightarrow> pyfloat \<Rightarrow> string set \<Rightarrow> string set \<Rightarrow> dijkstra_tables \<Rightarrow> bool" where
  "dinv g s lb finished vis tables =
     (case tables of (ds, pv, pq) \<Rightarrow>
        finished \<subseteq> vis \<and> inv_tables g s ds pv \<and> inv_queue lb ds pq \<and>
        inv_visited g s lb vis ds \<and> inv_finite g s vis ds pv pq \<and> inv_relaxed g finished ds)"

section \<open>Properties of the float arithmetic\<close>

lemma pyfloat_le_simps [simp]:
  "NegInf \<le> b" "a \<le> PosInf" "Fin x \<le> Fin y \<longleftrightarrow> x \<le> y"
  "\<not> Fin x \<le> NegInf" "\<not> PosInf \<le> Fin y" "\<not> PosInf \<le> NegInf"
  by (auto simp: less_eq_pyfloat_def split: pyfloat.splits)

lemma pyfloat_less_simps [simp]:
  "\<not> a < NegInf" "\<not> PosInf < b" "Fin x < Fin y \<longleftrightarrow> x < y"
  "NegInf < Fin y" "Fin x < PosInf" "NegInf < PosInf"
  by (auto simp: less_eq_pyfloat_def less_pyfloat_def split: pyfloat.splits)

lemma round_half_even_int [simp]: "round_half_even (of_int z) = z"
  by (simp add: round_half_even_def)

lemma round_half_even_bounds: "y - 1 / 2 \<le> of_int (round_half_even y)" "of_int (round_half_even y) \<le> y + 1 / 2"
  by (auto simp: round_half_even_def Let_def) linarith+

lemma round_half_even_mono: "a \<le> b \<Longrightarrow> round_half_even a \<le> round_half_even b"
proof (rule ccontr)
  assume ab: "a \<le> b" and "\<not> round_half_even a \<le> round_half_even b"
  then have gt: "round_half_even b + 1 \<le> round_half_even a" by simp
  then have "real_of_int (round_half_even b) + 1 \<le> real_of_int (round_half_even a)"
    by linarith
  with round_half_even_bounds(1)[of b] round_half_even_bounds(2)[of a] ab
  have "a = b" by linarith
  with gt show False by simp
qed

lemma binade_bounds:
  assumes "x \<noteq> 0"
  shows "\<bar>x\<bar> < 2 powi (binade x + 1)" and "- 1022 < binade x \<Longrightarrow> 2 powi (binade x) \<le> \<bar>x\<bar>"
    and "- 1022 \<le> binade x"
proof -
  let ?l = "\<lfloor>log 2 \<bar>x\<bar>\<rfloor>"
  have pos: "0 < \<bar>x\<bar>" using assms by simp
  have lt_iff: "log 2 \<bar>x\<bar> < y \<longleftrightarrow> \<bar>x\<bar> < 2 powr y" for y
    by (rule log_less_iff) (use pos in simp_all)
  have le_iff: "y \<le> log 2 \<bar>x\<bar> \<longleftrightarrow> 2 powr y \<le> \<bar>x\<bar>" for y
    by (rule le_log_iff) (use pos in simp_all)
  have pw: "(2::real) powr real_of_int n = 2 powi n" for n
    by (rule powr_real_of_int') simp_all
  have "log 2 \<bar>x\<bar> < real_of_int (?l + 1)" by linarith
  then have up: "\<bar>x\<bar> < 2 powi (?l + 1)" unfolding lt_iff pw .
  have "?l + 1 \<le> binade x + 1" by (simp add: binade_def)
  then have "(2::real) powi (?l + 1) \<le> 2 powi (binade x + 1)"
    by (intro power_int_increasing) simp_all
  with up show "\<bar>x\<bar> < 2 powi (binade x + 1)" by linarith
  show "- 1022 \<le> binade x" by (simp add: binade_def)
  assume "- 1022 < binade x"
  then have b: "binade x = ?l" by (simp add: binade_def max_def split: if_splits)
  have "real_of_int ?l \<le> log 2 \<bar>x\<bar>" by simp
  then have "2 powi ?l \<le> \<bar>x\<bar>" unfolding le_iff pw .
  with b show "2 powi (binade x) \<le> \<bar>x\<bar>" by simp
qed

lemma binade_mono: "x \<noteq> 0 \<Longrightarrow> \<bar>x\<bar> \<le> \<bar>y\<bar> \<Longrightarrow> binade x \<le> binade y"
proof -
  assume "x \<noteq> 0" "\<bar>x\<bar> \<le> \<bar>y\<bar>"
  then have "log 2 \<bar>x\<bar> \<le> log 2 \<bar>y\<bar>" by (intro log_mono) simp_all
  then have "\<lfloor>log 2 \<bar>x\<bar>\<rfloor> \<le> \<lfloor>log 2 \<bar>y\<bar>\<rfloor>" by (rule floor_mono)
  then show ?thesis by (simp add: binade_def)
qed

text \<open>The scaled value lies within 53 bits; in a normal binade it has its top bit set.\<close>

lemma scaled_bounds:
  assumes "x \<noteq> 0"
  shows "\<bar>x / 2 powi (binade x - 52)\<bar> < 2 ^ 53"
    and "- 1022 < binade x \<Longrightarrow> 2 ^ 52 \<le> \<bar>x / 2 powi (binade x - 52)\<bar>"
proof -
  let ?q = "(2::real) powi (binade x - 52)"
  have q: "0 < ?q" by simp
  have split1: "(2::real) powi (binade x + 1) = 2 ^ 53 * ?q"
    by (simp add: power_int_diff power_int_add)
  have split2: "(2::real) powi (binade x) = 2 ^ 52 * ?q"
    by (simp add: power_int_diff)
  from binade_bounds(1)[OF assms] have "\<bar>x\<bar> < 2 ^ 53 * ?q" unfolding split1 .
  then have "\<bar>x\<bar> / ?q < 2 ^ 53" using q by (simp add: pos_divide_less_eq)
  then show "\<bar>x / ?q\<bar> < 2 ^ 53" by simp
  assume "- 1022 < binade x"
  from binade_bounds(2)[OF assms this] have "2 ^ 52 * ?q \<le> \<bar>x\<bar>" unfolding split2 .
  then have "2 ^ 52 \<le> \<bar>x\<bar> / ?q" using q by (simp add: pos_le_divide_eq)
  then show "2 ^ 52 \<le> \<bar>x / ?q\<bar>" by simp
qed


lemma round_to_grid_fixed:
  assumes "x \<noteq> 0" and "x / 2 powi (binade x - 52) \<in> \<int>"
  shows "round_to_grid x = x"
proof -
  from assms(2) obtain z where z: "x / 2 powi (binade x - 52) = of_int z"
    by (auto elim: Ints_cases)
  have "x = x / 2 powi (binade x - 52) * 2 powi (binade x - 52)" by simp
  with z have "of_int (round_half_even (x / 2 powi (binade x - 52))) * 2 powi (binade x - 52) = x"
    by simp
  with assms(1) show ?thesis by (simp add: round_to_grid_def)
qed

lemma grid_point_scaled:
  assumes m: "m \<noteq> 0" "\<bar>m\<bar> < 2 ^ 53" and k: "- 1074 \<le> k"
  shows "real_of_int m * 2 powi k / 2 powi (binade (real_of_int m * 2 powi k) - 52) \<in> \<int>"
proof -
  let ?v = "real_of_int m * 2 powi k"
  have v0: "?v \<noteq> 0" using m(1) by simp
  have "\<bar>real_of_int m\<bar> < 2 ^ 53" using m(2) by (metis of_int_abs of_int_less_numeral_power_cancel_iff)
  then have "\<bar>?v\<bar> < 2 ^ 53 * 2 powi k" by (simp add: abs_mult)
  also have "\<dots> = 2 powi (k + 53)" by (simp add: power_int_add)
  finally have vlt: "\<bar>?v\<bar> < 2 powi (k + 53)" .
  have b: "binade ?v \<le> k + 52"
  proof (cases "- 1022 < binade ?v")
    case True
    from binade_bounds(2)[OF v0 True] vlt have "(2::real) powi (binade ?v) < 2 powi (k + 53)"
      by linarith
    have "binade ?v < k + 53"
    proof (rule ccontr)
      assume "\<not> binade ?v < k + 53"
      then have "k + 53 \<le> binade ?v" by simp
      then have "(2::real) powi (k + 53) \<le> 2 powi (binade ?v)"
        by (intro power_int_increasing) simp_all
      with \<open>(2::real) powi (binade ?v) < 2 powi (k + 53)\<close> show False by linarith
    qed
    then show ?thesis by simp
  next
    case False
    with binade_bounds(3)[OF v0] k show ?thesis by linarith
  qed
  define d where "d = nat (k - (binade ?v - 52))"
  from b have d: "k - (binade ?v - 52) = int d" by (simp add: d_def)
  have "?v / 2 powi (binade ?v - 52) = real_of_int m * 2 powi (k - (binade ?v - 52))"
    by (simp add: power_int_diff)
  also have "\<dots> = real_of_int (m * 2 ^ d)" unfolding d by simp
  finally show ?thesis by simp
qed

lemma round_to_grid_point:
  assumes "\<bar>m\<bar> < 2 ^ 53" and "- 1074 \<le> k"
  shows "round_to_grid (real_of_int m * 2 powi k) = real_of_int m * 2 powi k"
proof (cases "m = 0")
  case True
  then show ?thesis by (simp add: round_to_grid_def)
next
  case False
  from round_to_grid_fixed[OF _ grid_point_scaled[OF False assms]] False show ?thesis by simp
qed

text \<open>Rounding lands on the grid, so rounding again changes nothing.\<close>

lemma round_to_grid_idem: "round_to_grid (round_to_grid x) = round_to_grid x"
proof (cases "x = 0")
  case True
  then show ?thesis by (simp add: round_to_grid_def)
next
  case False
  let ?k = "binade x - 52"
  let ?n = "round_half_even (x / 2 powi ?k)"
  have rg: "round_to_grid x = real_of_int ?n * 2 powi ?k"
    using False by (simp add: round_to_grid_def)
  have k: "- 1074 \<le> ?k" using binade_bounds(3)[OF False] by simp
  from scaled_bounds(1)[OF False] have "- (2 ^ 53) < x / 2 powi ?k" "x / 2 powi ?k < 2 ^ 53"
    by linarith+
  with round_half_even_bounds[of "x / 2 powi ?k"]
  have "real_of_int ?n < 2 ^ 53 + 1" "- (2 ^ 53) - 1 < real_of_int ?n" by linarith+
  then have "real_of_int ?n < real_of_int (2 ^ 53 + 1)"
    "real_of_int (- (2 ^ 53) - 1) < real_of_int ?n" by simp_all
  then have "?n < 2 ^ 53 + 1" "- (2 ^ 53) - 1 < ?n" by (simp_all only: of_int_less_iff)
  then have n: "\<bar>?n\<bar> \<le> 2 ^ 53" by simp
  show ?thesis
  proof (cases "\<bar>?n\<bar> < 2 ^ 53")
    case True
    from round_to_grid_point[OF True k] rg show ?thesis by simp
  next
    case False
    with n have "\<bar>?n\<bar> = 2 ^ 53" by simp
    then obtain h :: int where h: "?n = 2 * h" "\<bar>h\<bar> = 2 ^ 52"
      by (cases "0 \<le> ?n") (auto intro: that[of "2 ^ 52"] that[of "- (2 ^ 52)"])
    have p: "(2::real) powi (binade x - 51) = 2 * 2 powi (binade x - 52)"
      using power_int_add[of "2::real" "binade x - 52" 1] by simp
    have "real_of_int ?n * 2 powi ?k = real_of_int h * 2 powi (?k + 1)"
      by (simp add: h(1) p)
    moreover have "\<bar>h\<bar> < 2 ^ 53" using h(2) by simp
    moreover have "- 1074 \<le> ?k + 1" using k by simp
    ultimately show ?thesis using round_to_grid_point[of h "?k + 1"] rg by simp
  qed
qed


lemma round_to_grid_nonneg: "0 \<le> x \<Longrightarrow> 0 \<le> round_to_grid x"
proof (cases "x = 0")
  case True
  then show ?thesis by (simp add: round_to_grid_def)
next
  case False
  assume "0 \<le> x"
  then have "0 \<le> x / 2 powi (binade x - 52)" by simp
  with round_half_even_mono[of 0 "x / 2 powi (binade x - 52)"] round_half_even_int[of 0]
  have "0 \<le> round_half_even (x / 2 powi (binade x - 52))" by simp
  with False show ?thesis by (simp add: round_to_grid_def)
qed

lemma int_ge_of_real_gt:
  "real_of_int a - 1 / 2 \<le> real_of_int n \<Longrightarrow> a \<le> n"
  by linarith

lemma int_le_of_real_lt:
  "real_of_int n < real_of_int a + 1 / 2 \<Longrightarrow> n \<le> a"
  by linarith

text \<open>Rounding to the grid keeps the order of non-negative numbers.\<close>

lemma round_to_grid_mono:
  assumes "0 \<le> x" and "x \<le> y"
  shows "round_to_grid x \<le> round_to_grid y"
proof (cases "x = 0")
  case True
  with assms round_to_grid_nonneg[of y] show ?thesis by (simp add: round_to_grid_def)
next
  case False
  with assms have x: "0 < x" and y: "0 < y" by simp_all
  then have y0: "y \<noteq> 0" by simp
  let ?qx = "(2::real) powi (binade x - 52)" and ?qy = "(2::real) powi (binade y - 52)"
  have rx: "round_to_grid x = real_of_int (round_half_even (x / ?qx)) * ?qx"
    using False by (simp add: round_to_grid_def)
  have ry: "round_to_grid y = real_of_int (round_half_even (y / ?qy)) * ?qy"
    using y0 by (simp add: round_to_grid_def)
  from binade_mono[OF False, of y] x assms(2) have b: "binade x \<le> binade y" by simp
  show ?thesis
  proof (cases "binade x = binade y")
    case True
    from assms(2) have "x / ?qx \<le> y / ?qx" by (simp add: divide_right_mono)
    from round_half_even_mono[OF this]
    have "real_of_int (round_half_even (x / ?qx)) \<le> real_of_int (round_half_even (y / ?qx))"
      by simp
    then have "real_of_int (round_half_even (x / ?qx)) * ?qx
               \<le> real_of_int (round_half_even (y / ?qx)) * ?qx"
      by (intro mult_right_mono) simp_all
    with rx ry True show ?thesis by simp
  next
    case False
    with b have lt: "binade x < binade y" by simp
    with binade_bounds(3)[OF \<open>x \<noteq> 0\<close>] have ny: "- 1022 < binade y" by simp
    from scaled_bounds(1)[OF \<open>x \<noteq> 0\<close>] have "x / ?qx < 2 ^ 53" by linarith
    with round_half_even_bounds(2)[of "x / ?qx"]
    have "real_of_int (round_half_even (x / ?qx)) < real_of_int (2 ^ 53) + 1 / 2" by simp
    from int_le_of_real_lt[OF this] have "round_half_even (x / ?qx) \<le> 2 ^ 53" .
    then have "real_of_int (round_half_even (x / ?qx)) \<le> 2 ^ 53"
      by (metis of_int_le_iff of_int_numeral of_int_power)
    then have "round_to_grid x \<le> 2 ^ 53 * ?qx"
      unfolding rx by (intro mult_right_mono) simp_all
    also have "\<dots> = 2 powi (binade x + 1)" by (simp add: power_int_diff power_int_add)
    also have "\<dots> \<le> 2 powi (binade y)" using lt by (intro power_int_increasing) simp_all
    also have "\<dots> = 2 ^ 52 * ?qy" by (simp add: power_int_diff)
    also have "\<dots> \<le> round_to_grid y"
    proof -
      from scaled_bounds(2)[OF y0 ny] y have "2 ^ 52 \<le> y / ?qy" by simp
      with round_half_even_bounds(1)[of "y / ?qy"]
      have "real_of_int (2 ^ 52) - 1 / 2 \<le> real_of_int (round_half_even (y / ?qy))" by simp
      from int_ge_of_real_gt[OF this] have "2 ^ 52 \<le> round_half_even (y / ?qy)" .
      then have "2 ^ 52 \<le> real_of_int (round_half_even (y / ?qy))"
        by (metis of_int_le_iff of_int_numeral of_int_power)
      then show ?thesis unfolding ry by (intro mult_right_mono) simp_all
    qed
    finally show ?thesis .
  qed
qed

lemma overflow_threshold_large: "2 ^ 1023 < overflow_threshold"
  by (simp add: overflow_threshold_def)

lemma overflow_threshold_pos: "0 < overflow_threshold"
  by (simp add: overflow_threshold_def)

lemma to_double_zero [simp]: "to_double 0 = Fin 0"
  using overflow_threshold_large by (simp add: to_double_def round_to_grid_def)

lemma to_double_mono:
  assumes "0 \<le> x" and "x \<le> y"
  shows "to_double x \<le> to_double y"
proof -
  note t = overflow_threshold_pos
  show ?thesis
  proof (cases "overflow_threshold \<le> y")
    case True
    then show ?thesis by (simp add: to_double_def)
  next
    case False
    with assms t round_to_grid_mono[OF assms] show ?thesis by (simp add: to_double_def)
  qed
qed

lemma to_double_on_grid: "to_double x = Fin v \<Longrightarrow> round_to_grid v = v"
  using round_to_grid_idem[of x] by (auto simp: to_double_def split: if_splits)

lemma to_double_int:
  assumes "\<bar>n\<bar> < 2 ^ 53"
  shows "to_double (real_of_int n) = Fin (real_of_int n)"
proof -
  have "\<bar>real_of_int n\<bar> < 2 ^ 53"
    using assms by (metis of_int_abs of_int_less_numeral_power_cancel_iff)
  with overflow_threshold_large have "\<not> overflow_threshold \<le> real_of_int n"
    "\<not> real_of_int n \<le> - overflow_threshold" by simp_all
  moreover from round_to_grid_point[OF assms, of 0] have "round_to_grid (real_of_int n) = real_of_int n"
    by simp
  ultimately show ?thesis by (simp add: to_double_def)
qed

lemma to_double_numeral [simp]:
  "numeral k < (2 ^ 53 :: int) \<Longrightarrow> to_double (numeral k) = Fin (numeral k)"
  using to_double_int[of "numeral k"] by simp

lemma to_double_one [simp]: "to_double 1 = Fin 1"
  using to_double_int[of 1] by simp

lemma to_double_pow2:
  assumes "n < 1024"
  shows "to_double (2 ^ n) = Fin (2 ^ n)"
proof -
  have "(2::real) ^ n \<le> 2 ^ 1023" using assms by (intro power_increasing) simp_all
  moreover have "(0::real) < 2 ^ n" by simp
  ultimately have "\<not> overflow_threshold \<le> 2 ^ n" "\<not> 2 ^ n \<le> - overflow_threshold"
    using overflow_threshold_large overflow_threshold_pos by linarith+
  moreover from round_to_grid_point[of 1 "int n"] have "round_to_grid (2 ^ n) = 2 ^ n" by simp
  ultimately show ?thesis by (simp add: to_double_def)
qed

lemma to_double_finite: "\<bar>x\<bar> < overflow_threshold \<Longrightarrow> to_double x = Fin (round_to_grid x)"
  by (auto simp: to_double_def)

lemma float_add_ok: "float_ok a \<Longrightarrow> 0 \<le> w \<Longrightarrow> float_ok (float_add a w)"
proof (cases a)
  case (Fin x)
  assume "float_ok a" "0 \<le> w"
  with Fin have "0 \<le> x + w" by simp
  with overflow_threshold_pos have "\<not> x + w \<le> - overflow_threshold" by linarith
  with \<open>0 \<le> x + w\<close> Fin show ?thesis
    by (simp add: to_double_def round_to_grid_nonneg round_to_grid_idem)
qed simp_all

lemma float_add_ge: "float_ok a \<Longrightarrow> 0 \<le> w \<Longrightarrow> a \<le> float_add a w"
proof (cases a)
  case (Fin x)
  assume ok: "float_ok a" and w: "0 \<le> w"
  with Fin have x: "0 \<le> x" "round_to_grid x = x" by simp_all
  show ?thesis
  proof (cases "overflow_threshold \<le> x + w")
    case True
    with Fin show ?thesis by (simp add: to_double_def)
  next
    case False
    with w x(1) have "\<bar>x\<bar> < overflow_threshold" by linarith
    from to_double_finite[OF this] x(2) have "to_double x = Fin x" by simp
    with to_double_mono[of x "x + w"] x(1) w Fin show ?thesis by simp
  qed
qed simp_all

lemma float_add_mono: "float_ok a \<Longrightarrow> a \<le> b \<Longrightarrow> 0 \<le> w \<Longrightarrow> float_add a w \<le> float_add b w"
proof (cases a)
  case (Fin x)
  assume ok: "float_ok a" and le: "a \<le> b" and w: "0 \<le> w"
  show ?thesis
  proof (cases b)
    case NegInf
    with le Fin show ?thesis by simp
  next
    case (Fin y)
    with \<open>a = Fin x\<close> ok le w to_double_mono[of "x + w" "y + w"] show ?thesis by simp
  next
    case PosInf
    then show ?thesis by simp
  qed
next
  case PosInf
  assume "a \<le> b"
  with PosInf have "b = PosInf" by (cases b) simp_all
  with PosInf show ?thesis by simp
qed simp_all

lemma to_double_huge: "to_double huge = Fin huge"
  unfolding huge_def by (rule to_double_pow2) simp

lemma to_double_huge_twice: "to_double (huge + huge) = PosInf"
  by (simp add: huge_def to_double_def overflow_threshold_def)

lemma huge_pos: "0 < huge"
  by (simp add: huge_def)

section \<open>Graph operations\<close>

lemma get_neighbors_not_key: "m \<notin> graph_keys g \<Longrightarrow> get_neighbors g m = []"
  by (auto simp: get_neighbors_def fmlookup_dom'_iff split: option.splits)

lemma get_neighbors_add_node: "get_neighbors (add_node g n x y) m = get_neighbors g m"
  by (auto simp: get_neighbors_def add_node_def Let_def fmlookup_dom'_iff split: option.splits)

lemma keys_add_node: "graph_keys (add_node g n x y) = insert n (graph_keys g)"
  by (auto simp: add_node_def Let_def)

lemma get_neighbors_append_arc:
  "get_neighbors (append_arc g n arc) m =
     (if m = n then get_neighbors g n @ [arc] else get_neighbors g m)"
  by (simp add: get_neighbors_def append_arc_def)

lemma keys_append_arc: "graph_keys (append_arc g n arc) = insert n (graph_keys g)"
  by (simp add: append_arc_def)

lemma get_neighbors_add_edge:
  "get_neighbors (add_edge g a b w bi) m =
     get_neighbors g m @ (if m = a then [(b, w)] else []) @ (if bi \<and> m = b then [(a, w)] else [])"
  by (simp add: add_edge_def Let_def get_neighbors_append_arc get_neighbors_add_node)

lemma keys_add_edge: "graph_keys (add_edge g a b w bi) = insert a (insert b (graph_keys g))"
  by (auto simp: add_edge_def Let_def keys_append_arc keys_add_node)

lemma position_add_edge_new:
  "a \<notin> graph_keys g \<Longrightarrow> fmlookup (node_positions (add_edge g a b w bi)) a = Some (0, 0)"
  "b \<notin> graph_keys g \<Longrightarrow> fmlookup (node_positions (add_edge g a b w bi)) b = Some (0, 0)"
  by (auto simp: add_edge_def Let_def append_arc_def add_node_def)

lemma wf_graph_init: "wf_graph Graph_init"
  by (simp add: wf_graph_def Graph_init_def)

lemma wf_graph_add_node: "wf_graph g \<Longrightarrow> wf_graph (add_node g n x y)"
  unfolding wf_graph_def keys_add_node get_neighbors_add_node
  using get_neighbors_not_key by fastforce

lemma wf_graph_add_edge: "wf_graph g \<Longrightarrow> wf_graph (add_edge g a b w bi)"
  unfolding wf_graph_def keys_add_edge get_neighbors_add_edge
  using get_neighbors_not_key by (fastforce split: if_splits)

lemma built_wf: "built g \<Longrightarrow> wf_graph g"
  by (induction rule: built.induct)
     (simp_all add: wf_graph_init wf_graph_add_node wf_graph_add_edge)

lemma add_nodes_built: "add_nodes g ns = Inr g' \<Longrightarrow> built g \<Longrightarrow> built g'"
proof (induction g ns rule: add_nodes.induct)
  case (2 g i x y ns)
  then show ?case by (cases i) (auto intro: built.intros)
qed (auto intro: built.intros)

lemma add_edges_built: "add_edges g es = Inr g' \<Longrightarrow> built g \<Longrightarrow> built g'"
proof (induction g es rule: add_edges.induct)
  case (2 g e es)
  then show ?case by (auto intro: built.intros split: option.splits)
qed auto

lemma from_dict_built: "from_dict d = Inr g \<Longrightarrow> built g"
proof -
  assume "from_dict d = Inr g"
  then obtain g1 where n: "add_nodes Graph_init (dict_get (data_nodes d) []) = Inr g1"
    and e: "add_edges g1 (dict_get (data_edges d) []) = Inr g"
    by (auto simp: from_dict_def split: sum.splits)
  from add_nodes_built[OF n built_init] have "built g1" .
  from add_edges_built[OF e this] show ?thesis .
qed

lemma stale_data_graph: "from_dict stale_data = Inr stale_graph"
  by (simp add: from_dict_def stale_data_def stale_graph_def edge_def dict_get_def)

lemma line_data_graph: "from_dict line_data = Inr line_graph"
  by (simp add: from_dict_def line_data_def line_graph_def edge_def dict_get_def)

lemmas graph_eval =
  Graph_init_def add_node_def add_edge_def append_arc_def get_neighbors_def Let_def

lemmas search_eval =
  dijkstra_def astar_def heappush_def reconstruct.simps
  select_heuristic_def euclidean_heuristic_def manhattan_heuristic_def float_sub_def

text \<open>
  C8: after \<open>add_edge a b w\<close> with \<open>bidirectional = True\<close> the arc \<open>(b, w)\<close> is among the
  neighbours of \<open>a\<close> and the arc \<open>(a, w)\<close> among those of \<open>b\<close>; the call appends to both
  lists (twice to the same list for a loop \<open>a = b\<close>), and a second, equal call appends a
  second parallel arc in each direction.
\<close>

theorem add_edge_bidirectional_parallel:
  "(b, w) \<in> set (get_neighbors (add_edge g a b w True) a) \<and>
   (a, w) \<in> set (get_neighbors (add_edge g a b w True) b) \<and>
   get_neighbors (add_edge g a b w True) a =
     get_neighbors g a @ (if a = b then [(b, w), (b, w)] else [(b, w)]) \<and>
   get_neighbors (add_edge g a b w True) b =
     get_neighbors g b @ (if a = b then [(a, w), (a, w)] else [(a, w)]) \<and>
   get_neighbors (add_edge (add_edge g a b w True) a b w True) a =
     get_neighbors g a @ (if a = b then [(b, w), (b, w), (b, w), (b, w)] else [(b, w), (b, w)]) \<and>
   get_neighbors (add_edge (add_edge g a b w True) a b w True) b =
     get_neighbors g b @ (if a = b then [(a, w), (a, w), (a, w), (a, w)] else [(a, w), (a, w)])"
  by (simp add: get_neighbors_add_edge)

text \<open>
  C9: in every graph built from the empty graph by \<open>add_node\<close> and \<open>add_edge\<close>, and so in
  every graph that \<open>from_dict\<close> returns, both endpoints of every stored arc are keys of
  the adjacency mapping; an endpoint that was not a key is created by \<open>add_edge\<close> with
  position \<open>(0, 0)\<close>.
\<close>

theorem built_graph_endpoints_are_keys:
  "(built g \<longrightarrow>
      (\<forall>u arc. arc \<in> set (get_neighbors g u) \<longrightarrow> u \<in> graph_keys g \<and> fst arc \<in> graph_keys g)) \<and>
   (from_dict d = Inr g' \<longrightarrow> built g') \<and>
   (a \<notin> graph_keys g0 \<longrightarrow>
      a \<in> graph_keys (add_edge g0 a b w bi) \<and>
      fmlookup (node_positions (add_edge g0 a b w bi)) a = Some (0, 0)) \<and>
   (b \<notin> graph_keys g0 \<longrightarrow>
      b \<in> graph_keys (add_edge g0 a b w bi) \<and>
      fmlookup (node_positions (add_edge g0 a b w bi)) b = Some (0, 0))"
proof (intro conjI impI allI)
  fix u arc
  assume b: "built g" and arc: "arc \<in> set (get_neighbors g u)"
  from arc have u: "u \<in> graph_keys g"
    by (cases "u \<in> graph_keys g") (simp_all add: get_neighbors_not_key)
  then show "u \<in> graph_keys g" .
  from u built_wf[OF b] arc show "fst arc \<in> graph_keys g" by (auto simp: wf_graph_def)
qed (simp_all add: from_dict_built keys_add_edge position_add_edge_new)

theorem built_graph_endpoints_are_keys_witness:
  "built line_graph \<and> (''B'', 1) \<in> set (get_neighbors line_graph ''A'') \<and>
   ''A'' \<in> graph_keys line_graph \<and> ''B'' \<in> graph_keys line_graph \<and>
   from_dict line_data = Inr line_graph \<and>
   ''Z'' \<notin> graph_keys line_graph \<and>
   ''Z'' \<in> graph_keys (add_edge line_graph ''Z'' ''Y'' 4 False) \<and>
   fmlookup (node_positions (add_edge line_graph ''Z'' ''Y'' 4 False)) ''Z'' = Some (0, 0) \<and>
   fmlookup (node_positions (add_edge line_graph ''Z'' ''Y'' 4 False)) ''Y'' = Some (0, 0)"
proof -
  have b: "built line_graph"
    unfolding line_graph_def by (intro built.intros)
  have arc: "(''B'', 1) \<in> set (get_neighbors line_graph ''A'')"
    by (simp add: line_graph_def get_neighbors_add_edge)
  have z: "''Z'' \<notin> graph_keys line_graph" "''Y'' \<notin> graph_keys line_graph"
    by (simp_all add: line_graph_def keys_add_edge keys_add_node Graph_init_def)
  show ?thesis
    using b arc z line_data_graph
      built_graph_endpoints_are_keys[where g = line_graph and d = line_data and g' = line_graph
        and a = "''Z''" and b = "''Y''" and g0 = line_graph and w = 4 and bi = False]
    by fastforce
qed

lemma add_nodes_fails:
  "list_ex node_lacks_id ns \<Longrightarrow> add_nodes g ns = Inl (KeyError ''id'')"
  by (induction g ns rule: add_nodes.induct) (auto split: option.splits)

lemma add_nodes_succeeds:
  "\<not> list_ex node_lacks_id ns \<Longrightarrow> \<exists>g'. add_nodes g ns = Inr g'"
proof (induction g ns rule: add_nodes.induct)
  case (2 g i x y ns)
  then show ?case by (cases i) auto
qed auto

lemma add_edges_fails:
  "list_ex edge_lacks_endpoint es \<Longrightarrow>
   add_edges g es = Inl (KeyError ''from'') \<or> add_edges g es = Inl (KeyError ''to'')"
  by (induction g es rule: add_edges.induct)
     (auto simp: edge_lacks_endpoint_def split: option.splits)

lemma add_edges_succeeds:
  "\<not> list_ex edge_lacks_endpoint es \<Longrightarrow> \<exists>g'. add_edges g es = Inr g'"
  by (induction g es rule: add_edges.induct)
     (auto simp: edge_lacks_endpoint_def split: option.splits)

lemma add_nodes_with_defaults: "add_nodes g (map with_defaults_node ns) = add_nodes g ns"
  by (induction g ns rule: add_nodes.induct) (auto simp: dict_get_def split: option.splits)

lemma add_edges_with_defaults: "add_edges g (map with_defaults_edge es) = add_edges g es"
  by (induction g es rule: add_edges.induct)
     (auto simp: dict_get_def with_defaults_edge_def split: option.splits)

lemma dict_get_Some: "dict_get (Some x) dflt = x"
  by (simp add: dict_get_def)

lemma from_dict_with_defaults: "from_dict (with_defaults d) = from_dict d"
  by (simp add: from_dict_def with_defaults_def add_nodes_with_defaults add_edges_with_defaults
      dict_get_Some split: sum.splits)

lemma position_add_node:
  "fmlookup (node_positions (add_node g n x y)) i =
     (if i = n then Some (x, y) else fmlookup (node_positions g) i)"
  by (simp add: add_node_def Let_def)

lemma position_append_arc: "node_positions (append_arc g n arc) = node_positions g"
  by (simp add: append_arc_def)

lemma position_add_edge:
  "fmlookup (node_positions (add_edge g a b w bi)) i =
     (if i \<notin> graph_keys g \<and> (i = a \<or> i = b) then Some (0, 0)
      else fmlookup (node_positions g) i)"
  by (auto simp: add_edge_def Let_def position_append_arc position_add_node keys_add_node)

lemma add_nodes_content:
  "add_nodes g ns = Inr g' \<Longrightarrow>
   graph_keys g' = graph_keys g \<union> declared_ids ns \<and>
   (\<forall>u. get_neighbors g' u = get_neighbors g u) \<and>
   (\<forall>i. fmlookup (node_positions g') i =
      (case declared_position ns i of
         Some p \<Rightarrow> Some p
       | None \<Rightarrow> fmlookup (node_positions g) i))"
proof (induction g ns rule: add_nodes.induct)
  case (1 g)
  then show ?case by (simp add: declared_ids_def)
next
  case (2 g i x y ns)
  from "2.prems" obtain n where i: "i = Some n"
    and r: "add_nodes (add_node g n (dict_get x 0) (dict_get y 0)) ns = Inr g'"
    by (cases i) auto
  from "2.IH"[OF i r] show ?case
    by (auto simp: i declared_ids_def keys_add_node get_neighbors_add_node position_add_node
        dict_get_def split: option.splits)
next
  case (3 g s ns)
  from "3.prems" have r: "add_nodes (add_node g s 0 0) ns = Inr g'" by simp
  from "3.IH"[OF r] show ?case
    by (auto simp: declared_ids_def keys_add_node get_neighbors_add_node position_add_node
        split: option.splits)
qed

lemma edge_arcs_at:
  "edge_from e = Some f \<Longrightarrow> edge_to e = Some t \<Longrightarrow>
   edge_arcs u e =
     (if u = f then [(t, dict_get (edge_weight e) 1)] else []) @
     (if dict_get (edge_bidirectional e) True \<and> u = t then [(f, dict_get (edge_weight e) 1)]
      else [])"
  by (simp add: edge_arcs_def dict_get_def Let_def split: option.splits)

lemma add_edges_content:
  "add_edges g es = Inr g' \<Longrightarrow>
   graph_keys g' = graph_keys g \<union> edge_endpoints es \<and>
   (\<forall>u. get_neighbors g' u = get_neighbors g u @ concat (map (edge_arcs u) es)) \<and>
   (\<forall>i. fmlookup (node_positions g') i =
      (if i \<notin> graph_keys g \<and> i \<in> edge_endpoints es then Some (0, 0)
       else fmlookup (node_positions g) i))"
proof (induction g es rule: add_edges.induct)
  case (1 g)
  then show ?case by (simp add: edge_endpoints_def)
next
  case (2 g e es)
  from "2.prems" obtain f t where f: "edge_from e = Some f" and t: "edge_to e = Some t"
    and r: "add_edges (add_edge g f t (dict_get (edge_weight e) 1)
              (dict_get (edge_bidirectional e) True)) es = Inr g'"
    by (auto split: option.splits)
  have ends: "edge_endpoints (e # es) = insert f (insert t (edge_endpoints es))"
    using f t by (auto simp: edge_endpoints_def)
  note ih = "2.IH"[OF f t r]
  have keys: "graph_keys g' = graph_keys g \<union> edge_endpoints (e # es)"
    using ih by (auto simp: ends keys_add_edge)
  have nb: "get_neighbors g' u = get_neighbors g u @ concat (map (edge_arcs u) (e # es))" for u
    using ih by (simp add: get_neighbors_add_edge edge_arcs_at[OF f t])
  have pos: "fmlookup (node_positions g') i =
      (if i \<notin> graph_keys g \<and> i \<in> edge_endpoints (e # es) then Some (0, 0)
       else fmlookup (node_positions g) i)" for i
    using ih by (auto simp: ends keys_add_edge position_add_edge)
  from keys nb pos show ?case by blast
qed

lemma from_dict_content:
  assumes "from_dict d = Inr g"
  shows "graph_keys g =
           declared_ids (dict_get (data_nodes d) []) \<union> edge_endpoints (dict_get (data_edges d) [])"
    and "get_neighbors g u = concat (map (edge_arcs u) (dict_get (data_edges d) []))"
    and "fmlookup (node_positions g) i =
           (case declared_position (dict_get (data_nodes d) []) i of
              Some p \<Rightarrow> Some p
            | None \<Rightarrow> if i \<in> edge_endpoints (dict_get (data_edges d) []) then Some (0, 0)
                      else None)"
proof -
  from assms obtain g1 where n: "add_nodes Graph_init (dict_get (data_nodes d) []) = Inr g1"
    and e: "add_edges g1 (dict_get (data_edges d) []) = Inr g"
    by (auto simp: from_dict_def split: sum.splits)
  note cn = add_nodes_content[OF n] and ce = add_edges_content[OF e]
  have k1: "graph_keys g1 = declared_ids (dict_get (data_nodes d) [])"
    using cn by (simp add: Graph_init_def)
  have n1: "get_neighbors g1 u = []" for u
    using cn by (simp add: get_neighbors_def Graph_init_def)
  have p1: "fmlookup (node_positions g1) i = declared_position (dict_get (data_nodes d) []) i"
    for i using cn by (simp add: Graph_init_def split: option.splits)
  have dk: "declared_position ns i \<noteq> None \<longleftrightarrow> i \<in> declared_ids ns" for ns
    by (induction ns) (auto simp: declared_ids_def split: option.splits)
  show "graph_keys g =
           declared_ids (dict_get (data_nodes d) []) \<union> edge_endpoints (dict_get (data_edges d) [])"
    using ce k1 by simp
  show "get_neighbors g u = concat (map (edge_arcs u) (dict_get (data_edges d) []))"
    using ce n1 by simp
  show "fmlookup (node_positions g) i =
           (case declared_position (dict_get (data_nodes d) []) i of
              Some p \<Rightarrow> Some p
            | None \<Rightarrow> if i \<in> edge_endpoints (dict_get (data_edges d) []) then Some (0, 0)
                      else None)"
    using ce p1 k1 dk[of "dict_get (data_nodes d) []"]
    by (auto split: option.splits)
qed

text \<open>
  C4: \<open>from_dict\<close> fails with a \<open>KeyError\<close> (the spec's MalformedInput) for \<open>id\<close>,
  \<open>from\<close> or \<open>to\<close> when a node dictionary lacks \<open>id\<close> or an edge lacks \<open>from\<close> or
  \<open>to\<close>. Otherwise it returns a graph, and the graph stores what the input says with
  the defaults filled in: its keys are the ids of the node items and the endpoints of the
  edges; the neighbours of a node are, in the order of the edge list, the arcs of the
  edges that touch it, with weight 1 where none is given and in both directions unless
  \<open>bidirectional\<close> is given as false; the position of an id is that of its last node
  item, with 0 for an absent \<open>x\<close> or \<open>y\<close>, and \<open>(0, 0)\<close> for an id that only edges
  mention. The same graph is built from the input in which every absent field is written
  as its default.
\<close>

theorem from_dict_required_keys:
  "(lacks_required_key d \<longrightarrow>
      from_dict d \<in> {Inl (KeyError ''id''), Inl (KeyError ''from''), Inl (KeyError ''to'')}) \<and>
   (\<not> lacks_required_key d \<longrightarrow>
      (\<exists>g. from_dict d = Inr g \<and>
         graph_keys g =
           declared_ids (dict_get (data_nodes d) []) \<union> edge_endpoints (dict_get (data_edges d) []) \<and>
         (\<forall>u. get_neighbors g u = concat (map (edge_arcs u) (dict_get (data_edges d) []))) \<and>
         (\<forall>i. fmlookup (node_positions g) i =
            (case declared_position (dict_get (data_nodes d) []) i of
               Some p \<Rightarrow> Some p
             | None \<Rightarrow> if i \<in> edge_endpoints (dict_get (data_edges d) []) then Some (0, 0)
                       else None))) \<and>
      from_dict d = from_dict (with_defaults d))"
proof (intro conjI impI)
  assume l: "lacks_required_key d"
  show "from_dict d \<in> {Inl (KeyError ''id''), Inl (KeyError ''from''), Inl (KeyError ''to'')}"
  proof (cases "list_ex node_lacks_id (dict_get (data_nodes d) [])")
    case True
    then show ?thesis by (simp add: from_dict_def add_nodes_fails)
  next
    case False
    from add_nodes_succeeds[OF this] obtain g1 where
      g1: "add_nodes Graph_init (dict_get (data_nodes d) []) = Inr g1" by blast
    from l False have "list_ex edge_lacks_endpoint (dict_get (data_edges d) [])"
      by (simp add: lacks_required_key_def)
    from add_edges_fails[OF this, of g1] g1 show ?thesis by (auto simp: from_dict_def)
  qed
next
  assume l: "\<not> lacks_required_key d"
  then have n: "\<not> list_ex node_lacks_id (dict_get (data_nodes d) [])"
    and e: "\<not> list_ex edge_lacks_endpoint (dict_get (data_edges d) [])"
    by (simp_all add: lacks_required_key_def)
  from add_nodes_succeeds[OF n] obtain g1 where
    g1: "add_nodes Graph_init (dict_get (data_nodes d) []) = Inr g1" by blast
  from add_edges_succeeds[OF e, of g1] g1 obtain g where g: "from_dict d = Inr g"
    by (auto simp: from_dict_def)
  from g from_dict_content[OF g]
  show "\<exists>g. from_dict d = Inr g \<and>
         graph_keys g =
           declared_ids (dict_get (data_nodes d) []) \<union> edge_endpoints (dict_get (data_edges d) []) \<and>
         (\<forall>u. get_neighbors g u = concat (map (edge_arcs u) (dict_get (data_edges d) []))) \<and>
         (\<forall>i. fmlookup (node_positions g) i =
            (case declared_position (dict_get (data_nodes d) []) i of
               Some p \<Rightarrow> Some p
             | None \<Rightarrow> if i \<in> edge_endpoints (dict_get (data_edges d) []) then Some (0, 0)
                       else None))"
    by blast
next
  show "from_dict d = from_dict (with_defaults d)" by (simp add: from_dict_with_defaults)
qed

theorem from_dict_required_keys_witness:
  "lacks_required_key
     \<lparr>data_nodes = None,
      data_edges = Some [\<lparr>edge_from = None, edge_to = Some ''B'', edge_weight = None,
                          edge_bidirectional = None\<rparr>]\<rparr> \<and>
   from_dict
     \<lparr>data_nodes = None,
      data_edges = Some [\<lparr>edge_from = None, edge_to = Some ''B'', edge_weight = None,
                          edge_bidirectional = None\<rparr>]\<rparr>
     \<in> {Inl (KeyError ''id''), Inl (KeyError ''from''), Inl (KeyError ''to'')} \<and>
   \<not> lacks_required_key sparse_data \<and>
   (\<exists>g. from_dict sparse_data = Inr g \<and>
      graph_keys g = {''A'', ''B'', ''C'', ''D'', ''E''} \<and>
      get_neighbors g ''A'' = [(''B'', 1)] \<and>
      get_neighbors g ''B'' = [(''A'', 1), (''C'', 2)] \<and>
      get_neighbors g ''C'' = [(''E'', 1)] \<and>
      get_neighbors g ''D'' = [] \<and>
      get_neighbors g ''E'' = [(''C'', 1)] \<and>
      fmlookup (node_positions g) ''A'' = Some (0, 0) \<and>
      fmlookup (node_positions g) ''B'' = Some (3, 0) \<and>
      fmlookup (node_positions g) ''C'' = Some (0, 4) \<and>
      fmlookup (node_positions g) ''D'' = Some (0, 0) \<and>
      fmlookup (node_positions g) ''E'' = Some (0, 0)) \<and>
   from_dict sparse_data = from_dict (with_defaults sparse_data)"
proof -
  have l: "lacks_required_key
     \<lparr>data_nodes = None,
      data_edges = Some [\<lparr>edge_from = None, edge_to = Some ''B'', edge_weight = None,
                          edge_bidirectional = None\<rparr>]\<rparr>"
    by (simp add: lacks_required_key_def edge_lacks_endpoint_def dict_get_def)
  have n: "\<not> lacks_required_key sparse_data"
    by (simp add: lacks_required_key_def edge_lacks_endpoint_def dict_get_def sparse_data_def)
  have ids: "declared_ids (dict_get (data_nodes sparse_data) []) = {''A'', ''B'', ''C'', ''D''}"
    by (auto simp: declared_ids_def sparse_data_def dict_get_def)
  have ends: "edge_endpoints (dict_get (data_edges sparse_data) []) = {''A'', ''B'', ''C'', ''E''}"
    by (auto simp: edge_endpoints_def sparse_data_def dict_get_def)
  have nodes: "dict_get (data_nodes sparse_data) [] =
      [NodeDict (Some ''A'') None None, NodeDict (Some ''B'') (Some 3) None,
       NodeDict (Some ''C'') None (Some 4), NodeBare ''D'']"
    by (simp add: sparse_data_def dict_get_def)
  have edges: "dict_get (data_edges sparse_data) [] =
        [\<lparr>edge_from = Some ''A'', edge_to = Some ''B'', edge_weight = None,
          edge_bidirectional = None\<rparr>,
         \<lparr>edge_from = Some ''B'', edge_to = Some ''C'', edge_weight = Some 2,
          edge_bidirectional = Some False\<rparr>,
         \<lparr>edge_from = Some ''C'', edge_to = Some ''E'', edge_weight = None,
          edge_bidirectional = Some True\<rparr>]"
    by (simp add: sparse_data_def dict_get_def)
  from n from_dict_required_keys[of sparse_data] obtain g where
    g: "from_dict sparse_data = Inr g"
    and k: "graph_keys g =
           declared_ids (dict_get (data_nodes sparse_data) []) \<union>
           edge_endpoints (dict_get (data_edges sparse_data) [])"
    and nb: "\<And>u. get_neighbors g u =
           concat (map (edge_arcs u) (dict_get (data_edges sparse_data) []))"
    and pos: "\<And>i. fmlookup (node_positions g) i =
            (case declared_position (dict_get (data_nodes sparse_data) []) i of
               Some p \<Rightarrow> Some p
             | None \<Rightarrow> if i \<in> edge_endpoints (dict_get (data_edges sparse_data) [])
                       then Some (0, 0) else None)"
    and wd: "from_dict sparse_data = from_dict (with_defaults sparse_data)"
    by blast
  have k': "graph_keys g = {''A'', ''B'', ''C'', ''D'', ''E''}"
    unfolding k ids ends by auto
  have nb': "get_neighbors g ''A'' = [(''B'', 1)]"
    "get_neighbors g ''B'' = [(''A'', 1), (''C'', 2)]"
    "get_neighbors g ''C'' = [(''E'', 1)]"
    "get_neighbors g ''D'' = []"
    "get_neighbors g ''E'' = [(''C'', 1)]"
    unfolding nb edges by (simp_all add: edge_arcs_def)
  have pos': "fmlookup (node_positions g) ''A'' = Some (0, 0)"
    "fmlookup (node_positions g) ''B'' = Some (3, 0)"
    "fmlookup (node_positions g) ''C'' = Some (0, 4)"
    "fmlookup (node_positions g) ''D'' = Some (0, 0)"
    "fmlookup (node_positions g) ''E'' = Some (0, 0)"
    unfolding pos ends unfolding nodes by simp_all
  from l from_dict_required_keys[of "\<lparr>data_nodes = None,
        data_edges = Some [\<lparr>edge_from = None, edge_to = Some ''B'', edge_weight = None,
                            edge_bidirectional = None\<rparr>]\<rparr>"]
  have f: "from_dict
     \<lparr>data_nodes = None,
      data_edges = Some [\<lparr>edge_from = None, edge_to = Some ''B'', edge_weight = None,
                          edge_bidirectional = None\<rparr>]\<rparr>
     \<in> {Inl (KeyError ''id''), Inl (KeyError ''from''), Inl (KeyError ''to'')}"
    by blast
  from l f n g k' nb' pos' wd show ?thesis by simp
qed

lemma heuristic_at_goal: "select_heuristic heuristic g s s = Inr (Fin 0)"
  by (simp add: select_heuristic_def euclidean_heuristic_def manhattan_heuristic_def
      float_sub_def split: option.splits prod.splits)

text \<open>
  C10: for a node \<open>s\<close> of the graph, \<open>dijkstra g s s\<close> and \<open>astar g s s\<close> (with any
  heuristic tag, so with either valid one) return the path \<open>[s]\<close>, distance 0 and
  \<open>nodes_explored = 1\<close>.
\<close>

theorem start_is_end:
  assumes "s \<in> graph_keys g"
  shows "dijkstra g s s = Some (Inr (Some \<lparr>path = [s], distance = Fin 0, nodes_explored = 1,
                                          algorithm = ''dijkstra''\<rparr>)) \<and>
         astar g s s heuristic = Some (Inr (Some \<lparr>path = [s], distance = Fin 0, nodes_explored = 1,
                                          algorithm = ''astar_'' @ heuristic\<rparr>))"
proof -
  from assms obtain arcs where arcs: "fmlookup (adjacency_list g) s = Some arcs"
    by (auto simp: fmlookup_dom'_iff)
  have "reconstruct (fmmap (\<lambda>_. None) (adjacency_list g)) None [s] = Some (Inr [s])"
    by (subst reconstruct.simps) simp
  then have rec: "reconstruct (fmmap (\<lambda>_. None) (adjacency_list g)) (Some s) [] = Some (Inr [s])"
    by (subst reconstruct.simps) (simp add: arcs)
  show ?thesis
    using assms by (simp add: dijkstra_def astar_def Let_def rec heuristic_at_goal)
qed

theorem start_is_end_witness:
  "''B'' \<in> graph_keys line_graph \<and>
   dijkstra line_graph ''B'' ''B'' =
     Some (Inr (Some \<lparr>path = [''B''], distance = Fin 0, nodes_explored = 1,
                      algorithm = ''dijkstra''\<rparr>)) \<and>
   astar line_graph ''B'' ''B'' ''manhattan'' =
     Some (Inr (Some \<lparr>path = [''B''], distance = Fin 0, nodes_explored = 1,
                      algorithm = ''astar_'' @ ''manhattan''\<rparr>))"
proof -
  have k: "''B'' \<in> graph_keys line_graph"
    by (simp add: line_graph_def keys_add_edge keys_add_node)
  show ?thesis
    using k start_is_end[OF k, of "''manhattan''"] by simp
qed

section \<open>The frontier is ordered by key, then node id\<close>

lemma heappop_simps: "heappop [] = None" "heappop (item # rest) = Some (item, rest)"
  by (simp_all add: heappop_def)

lemma heappush_sorted: "sorted heap \<Longrightarrow> sorted (heappush heap item)"
  by (simp add: heappush_def sorted_insort)

lemma heappush_set: "set (heappush heap item) = insert item (set heap)"
  by (simp add: heappush_def set_insort_key)

lemma dijkstra_relax_sorted:
  "dijkstra_relax u d arcs (ds, pv, pq) = Inr (ds', pv', pq') \<Longrightarrow> sorted pq \<Longrightarrow> sorted pq'"
proof (induction arcs arbitrary: ds pv pq)
  case Nil
  then show ?case by simp
next
  case (Cons a arcs)
  obtain v w where a: "a = (v, w)" by (cases a)
  from Cons.prems a Cons.IH show ?case
    by (auto simp: Let_def heappush_sorted split: option.splits if_splits)
qed

lemma astar_relax_sorted:
  "astar_relax h u cl arcs (gs, fs, pv, os, hs) = Inr (gs', fs', pv', os', hs') \<Longrightarrow>
   sorted os \<Longrightarrow> sorted os'"
proof (induction arcs arbitrary: gs fs pv os hs)
  case Nil
  then show ?case by simp
next
  case (Cons a arcs)
  obtain v w where a: "a = (v, w)" by (cases a)
  from Cons.prems a Cons.IH show ?case
    by (auto simp: Let_def heappush_sorted split: option.splits if_splits sum.splits)
qed

lemma heappop_least:
  assumes "sorted heap" and "heappop heap = Some ((k, n), rest)" and "(k', n') \<in> set rest"
  shows "sorted rest \<and> k \<le> k' \<and> (k' = k \<longrightarrow> n \<le> n')"
proof -
  from assms(2) have h: "heap = (k, n) # rest"
    by (auto simp: heappop_def split: list.splits)
  with assms(1,3) have "sorted rest" and "(k, n) \<le> (k', n')" by auto
  then show ?thesis by (auto simp: less_eq_prod_def)
qed

section \<open>Guided search against uniform-cost search\<close>

lemma stale_heuristic_zero: "select_heuristic tag stale_graph n ''E'' = Inr (Fin 0)"
  by (simp add: stale_graph_def graph_eval select_heuristic_def euclidean_heuristic_def
      manhattan_heuristic_def float_sub_def split: option.splits prod.splits)

text \<open>
  C2, at a failing input: the graph built from \<open>stale_data\<close> has non-negative weights
  and every node at the default position, so the euclidean estimate to \<open>E\<close> is 0
  everywhere and never overestimates. \<open>dijkstra\<close> returns the distance 3 of the path
  S, B, A, E; \<open>astar\<close> returns 5. When the relaxation of B improves \<open>g_score[A]\<close>
  from 10 to 2, A is already in \<open>open_set_hash\<close>, nothing is pushed, and A stays in the
  heap under its old key 10, behind \<open>(5, E)\<close>.
\<close>

theorem astar_stale_key_distance:
  "from_dict stale_data = Inr stale_graph \<and>
   (\<forall>n. euclidean_heuristic stale_graph n ''E'' = Inr (Fin 0)) \<and>
   dijkstra stale_graph ''S'' ''E'' =
     Some (Inr (Some \<lparr>path = [''S'', ''B'', ''A'', ''E''], distance = Fin 3, nodes_explored = 4,
                      algorithm = ''dijkstra''\<rparr>)) \<and>
   astar stale_graph ''S'' ''E'' ''euclidean'' =
     Some (Inr (Some \<lparr>path = [''S'', ''E''], distance = Fin 5, nodes_explored = 3,
                      algorithm = ''astar_euclidean''\<rparr>))"
proof (intro conjI allI)
  show "from_dict stale_data = Inr stale_graph" by (rule stale_data_graph)
  show "euclidean_heuristic stale_graph n ''E'' = Inr (Fin 0)" for n
    using stale_heuristic_zero[of "''euclidean''" n] by (simp add: select_heuristic_def)
  show "dijkstra stale_graph ''S'' ''E'' =
     Some (Inr (Some \<lparr>path = [''S'', ''B'', ''A'', ''E''], distance = Fin 3, nodes_explored = 4,
                      algorithm = ''dijkstra''\<rparr>))"
    by (simp add: stale_graph_def graph_eval search_eval)
  show "astar stale_graph ''S'' ''E'' ''euclidean'' =
     Some (Inr (Some \<lparr>path = [''S'', ''E''], distance = Fin 5, nodes_explored = 3,
                      algorithm = ''astar_euclidean''\<rparr>))"
    by (simp add: stale_graph_def graph_eval search_eval)
qed

theorem astar_stale_key_distance_witness:
  "map_option (map_sum id (map_option distance)) (astar stale_graph ''S'' ''E'' ''euclidean'') \<noteq>
   map_option (map_sum id (map_option distance)) (dijkstra stale_graph ''S'' ''E'')"
  using astar_stale_key_distance by simp

text \<open>
  C7, at a failing input: on the same graph the manhattan estimate to \<open>E\<close> is 0 for
  every node, and \<open>astar\<close> differs from \<open>dijkstra\<close> in the path, the distance and
  \<open>nodes_explored\<close>.
\<close>

theorem astar_zero_heuristic_differs:
  "(\<forall>n. manhattan_heuristic stale_graph n ''E'' = Inr (Fin 0)) \<and>
   map_option (map_sum id (map_option (\<lambda>r. (path r, distance r, nodes_explored r))))
     (dijkstra stale_graph ''S'' ''E'') =
     Some (Inr (Some ([''S'', ''B'', ''A'', ''E''], Fin 3, 4))) \<and>
   map_option (map_sum id (map_option (\<lambda>r. (path r, distance r, nodes_explored r))))
     (astar stale_graph ''S'' ''E'' ''manhattan'') =
     Some (Inr (Some ([''S'', ''E''], Fin 5, 3)))"
proof (intro conjI allI)
  show "manhattan_heuristic stale_graph n ''E'' = Inr (Fin 0)" for n
    using stale_heuristic_zero[of "''manhattan''" n] by (simp add: select_heuristic_def)
qed (simp_all add: stale_graph_def graph_eval search_eval)

theorem astar_zero_heuristic_differs_witness:
  "map_option (map_sum id (map_option (\<lambda>r. (path r, distance r, nodes_explored r))))
     (astar stale_graph ''S'' ''E'' ''manhattan'') \<noteq>
   map_option (map_sum id (map_option (\<lambda>r. (path r, distance r, nodes_explored r))))
     (dijkstra stale_graph ''S'' ''E'')"
proof -
  from astar_zero_heuristic_differs
  have d: "map_option (map_sum id (map_option (\<lambda>r. (path r, distance r, nodes_explored r))))
             (dijkstra stale_graph ''S'' ''E'') =
           Some (Inr (Some ([''S'', ''B'', ''A'', ''E''], Fin 3, 4)))"
    and a: "map_option (map_sum id (map_option (\<lambda>r. (path r, distance r, nodes_explored r))))
             (astar stale_graph ''S'' ''E'' ''manhattan'') =
           Some (Inr (Some ([''S'', ''E''], Fin 5, 3)))"
    by blast+
  show ?thesis unfolding d a by simp
qed

text \<open>
  C3 as stated fails: \<open>astar\<close> called with the tag \<open>random\<close> raises nothing and returns
  a full result, labelled \<open>astar_random\<close>.
\<close>

theorem astar_random_tag_runs:
  "astar line_graph ''A'' ''C'' ''random'' =
     Some (Inr (Some \<lparr>path = [''A'', ''B'', ''C''], distance = Fin 3, nodes_explored = 3,
                      algorithm = ''astar_random''\<rparr>))"
  by (simp add: line_graph_def graph_eval search_eval)

text \<open>
  C3, amended: \<open>astar\<close> treats every tag other than \<open>manhattan\<close> as \<open>euclidean\<close>: the
  outcome is that of the tag \<open>euclidean\<close>, with the label \<open>astar_\<close> followed by the tag
  given. The rejection of a tag that is neither \<open>euclidean\<close> nor \<open>manhattan\<close> is done by
  the endpoint \<open>find_path_astar\<close>: on a request that has its required fields and whose
  graph builds, it answers with the invalid-heuristic 400 response and runs no search.
\<close>

theorem astar_unknown_heuristic:
  "(heuristic \<noteq> ''manhattan'' \<longrightarrow>
      astar g start end heuristic =
        map_option (map_sum id (map_option (\<lambda>r. r\<lparr>algorithm := ''astar_'' @ heuristic\<rparr>)))
          (astar g start end ''euclidean'')) \<and>
   (req_graph data = Some gd \<and> req_start data = Some s \<and> req_end data = Some e \<and>
    req_heuristic data = Some heuristic \<and> heuristic \<notin> {''euclidean'', ''manhattan''} \<and>
    from_dict gd = Inr graph \<longrightarrow> find_path_astar (Some data) = Some (BadRequest InvalidHeuristic))"
  by (auto simp: astar_def select_heuristic_def Let_def find_path_astar_def dict_get_def
      split: sum.splits option.splits)

theorem astar_unknown_heuristic_witness:
  "''random'' \<noteq> ''manhattan'' \<and> ''random'' \<notin> {''euclidean'', ''manhattan''} \<and>
   from_dict line_data = Inr line_graph \<and>
   astar line_graph ''A'' ''C'' ''random'' =
     map_option (map_sum id (map_option (\<lambda>r. r\<lparr>algorithm := ''astar_'' @ ''random''\<rparr>)))
       (astar line_graph ''A'' ''C'' ''euclidean'') \<and>
   find_path_astar (Some \<lparr>req_graph = Some line_data, req_start = Some ''A'',
       req_end = Some ''C'', req_heuristic = Some ''random''\<rparr>) = Some (BadRequest InvalidHeuristic)"
  using line_data_graph
    astar_unknown_heuristic[where heuristic = "''random''" and g = line_graph and start = "''A''"
      and ?end = "''C''" and gd = line_data and s = "''A''" and e = "''C''" and graph = line_graph
      and data = "\<lparr>req_graph = Some line_data, req_start = Some ''A'',
       req_end = Some ''C'', req_heuristic = Some ''random''\<rparr>"]
  by simp

section \<open>No path, no result\<close>

lemma reachable_start: "reachable g s s"
  unfolding reachable_def by (blast intro: path_start)

lemma reachable_arc:
  "reachable g s u \<Longrightarrow> (v, w) \<in> set (get_neighbors g u) \<Longrightarrow> reachable g s v"
  unfolding reachable_def by (blast intro: path_arc)

lemma wf_graph_arc:
  "wf_graph g \<Longrightarrow> u \<in> graph_keys g \<Longrightarrow> (v, w) \<in> set (get_neighbors g u) \<Longrightarrow> v \<in> graph_keys g"
  unfolding wf_graph_def by (metis fst_conv)

lemma fmdom'_lookup: "v \<in> fmdom' m \<Longrightarrow> \<exists>x. fmlookup m v = Some x"
  by (simp add: fmlookup_dom'_iff)

lemma dijkstra_reach_inv_dom: "dijkstra_reach_inv g s ds pq \<Longrightarrow> fmdom' ds = graph_keys g"
  by (simp add: dijkstra_reach_inv_def)

lemma dijkstra_relax_reach:
  assumes wf: "wf_graph g" and u: "u \<in> graph_keys g" "reachable g s u"
  shows "set arcs \<subseteq> set (get_neighbors g u) \<Longrightarrow> dijkstra_reach_inv g s ds pq \<Longrightarrow>
         \<exists>ds' pv' pq'. dijkstra_relax u d arcs (ds, pv, pq) = Inr (ds', pv', pq') \<and>
            dijkstra_reach_inv g s ds' pq'"
proof (induction arcs arbitrary: ds pv pq)
  case Nil
  then show ?case by simp
next
  case (Cons a arcs)
  obtain v w where a: "a = (v, w)" by (cases a)
  with Cons.prems have arc: "(v, w) \<in> set (get_neighbors g u)"
    and sub: "set arcs \<subseteq> set (get_neighbors g u)" by auto
  from wf_graph_arc[OF wf u(1) arc] have vk: "v \<in> graph_keys g" .
  from reachable_arc[OF u(2) arc] have vr: "reachable g s v" .
  from dijkstra_reach_inv_dom[OF Cons.prems(2)] vk have "v \<in> fmdom' ds" by simp
  from fmdom'_lookup[OF this] obtain dn where dn: "fmlookup ds v = Some dn" by blast
  show ?case
  proof (cases "float_add d w < dn")
    case False
    with a dn Cons.IH[OF sub Cons.prems(2)] show ?thesis by (simp add: Let_def)
  next
    case True
    have "dijkstra_reach_inv g s (fmupd v (float_add d w) ds) (heappush pq (float_add d w, v))"
      using Cons.prems(2) vk vr
      by (auto simp: dijkstra_reach_inv_def heappush_def set_insort_key)
    from Cons.IH[OF sub this] a dn True show ?thesis by (simp add: Let_def)
  qed
qed

lemma dijkstra_loop_reach:
  "wf_graph g \<Longrightarrow> dijkstra_reach_inv g s ds pq \<Longrightarrow>
   \<exists>ds' pv' n'. dijkstra_loop g e (ds, pv, pq, vis, n) = Inr (ds', pv', n') \<and>
      fmdom' ds' = graph_keys g \<and>
      (\<forall>v d. fmlookup ds' v = Some d \<and> d \<noteq> PosInf \<longrightarrow> reachable g s v)"
proof (induction g e "(ds, pv, pq, vis, n)" arbitrary: ds pv pq vis n rule: dijkstra_loop.induct)
  case (1 g e ds pv vis n)
  then show ?case by (simp add: dijkstra_reach_inv_def)
next
  case (2 g e ds pv d u pq vis n)
  note wf = "2.prems"(1) and inv = "2.prems"(2)
  from inv have inv': "dijkstra_reach_inv g s ds pq"
    and uk: "u \<in> graph_keys g" and ur: "reachable g s u"
    by (auto simp: dijkstra_reach_inv_def)
  show ?case
  proof (cases "u \<in> vis")
    case True
    with "2.hyps"(1)[OF True wf inv'] show ?thesis by simp
  next
    case nvis: False
    show ?thesis
    proof (cases "u = e")
      case True
      with nvis inv show ?thesis by (simp add: dijkstra_reach_inv_def)
    next
      case ne: False
      from dijkstra_reach_inv_dom[OF inv] uk have "u \<in> fmdom' ds" by simp
      from fmdom'_lookup[OF this] obtain dc where dc: "fmlookup ds u = Some dc" by blast
      show ?thesis
      proof (cases "d > dc")
        case True
        with "2.hyps"(2)[OF nvis ne dc True wf inv'] nvis ne dc show ?thesis by simp
      next
        case False
        from dijkstra_relax_reach[OF wf uk ur subset_refl inv', of d pv]
        obtain ds' pv' pq' where
          r: "dijkstra_relax u d (get_neighbors g u) (ds, pv, pq) = Inr (ds', pv', pq')"
          and i: "dijkstra_reach_inv g s ds' pq'" by blast
        from "2.hyps"(3)[OF nvis ne dc False r refl refl wf i] nvis ne dc False r
        show ?thesis by simp
      qed
    qed
  qed
qed

lemma astar_reach_inv_dom: "astar_reach_inv g s gs hs \<Longrightarrow> fmdom' gs = graph_keys g"
  by (simp add: astar_reach_inv_def)

lemma astar_reach_inv_upd:
  "astar_reach_inv g s gs hs \<Longrightarrow> v \<in> graph_keys g \<Longrightarrow>
   astar_reach_inv g s (fmupd v x gs) hs"
  by (auto simp: astar_reach_inv_def)

lemma astar_reach_inv_insert:
  "astar_reach_inv g s gs hs \<Longrightarrow> v \<in> graph_keys g \<Longrightarrow> reachable g s v \<Longrightarrow>
   astar_reach_inv g s gs (insert v hs)"
  by (auto simp: astar_reach_inv_def)

lemma float_plus_finite: "\<exists>f. float_plus a (Fin h) = Some f"
  by (cases a) simp_all

lemma astar_relax_reach:
  assumes wf: "wf_graph g" and u: "u \<in> graph_keys g" "reachable g s u"
    and fin: "\<forall>n \<in> graph_keys g. \<exists>x. h n = Inr (Fin x)"
  shows "set arcs \<subseteq> set (get_neighbors g u) \<Longrightarrow> astar_reach_inv g s gs hs \<Longrightarrow>
         \<exists>gs' fs' pv' os' hs'.
            astar_relax h u cl arcs (gs, fs, pv, os, hs) = Inr (gs', fs', pv', os', hs') \<and>
            astar_reach_inv g s gs' hs'"
proof (induction arcs arbitrary: gs fs pv os hs)
  case Nil
  then show ?case by simp
next
  case (Cons a arcs)
  obtain v w where a: "a = (v, w)" by (cases a)
  with Cons.prems have arc: "(v, w) \<in> set (get_neighbors g u)"
    and sub: "set arcs \<subseteq> set (get_neighbors g u)" by auto
  note inv = Cons.prems(2)
  from wf_graph_arc[OF wf u(1) arc] have vk: "v \<in> graph_keys g" .
  from reachable_arc[OF u(2) arc] have vr: "reachable g s v" .
  from astar_reach_inv_dom[OF inv] vk u(1) have vd: "v \<in> fmdom' gs" and ud: "u \<in> fmdom' gs"
    by simp_all
  from fmdom'_lookup[OF vd] obtain gn where gn: "fmlookup gs v = Some gn" by blast
  from fmdom'_lookup[OF ud] obtain gc where gc: "fmlookup gs u = Some gc" by blast
  from fin vk obtain hn where hn: "h v = Inr (Fin hn)" by blast
  from float_plus_finite obtain f where f: "float_plus (float_add gc w) (Fin hn) = Some f"
    by blast
  show ?case
  proof (cases "v \<in> cl")
    case True
    with a Cons.IH[OF sub inv] show ?thesis by simp
  next
    case ncl: False
    show ?thesis
    proof (cases "float_add gc w < gn")
      case False
      with a ncl gn gc Cons.IH[OF sub inv] show ?thesis by (simp add: Let_def)
    next
      case lt: True
      note upd = astar_reach_inv_upd[OF inv vk]
      show ?thesis
      proof (cases "v \<in> hs")
        case True
        with a ncl gn gc lt hn f Cons.IH[OF sub upd] show ?thesis by (simp add: Let_def)
      next
        case False
        with a ncl gn gc lt hn f Cons.IH[OF sub astar_reach_inv_insert[OF upd vk vr]]
        show ?thesis by (simp add: Let_def)
      qed
    qed
  qed
qed

lemma astar_loop_unreachable:
  "wf_graph g \<Longrightarrow> astar_reach_inv g s gs hs \<Longrightarrow> \<not> reachable g s e \<Longrightarrow>
   \<forall>n \<in> graph_keys g. \<exists>x. h n = Inr (Fin x) \<Longrightarrow>
   astar_loop g e h (gs, fs, pv, os, hs, cl, n) = Inr None"
proof (induction g e h "(gs, fs, pv, os, hs, cl, n)" arbitrary: gs fs pv os hs cl n
       rule: astar_loop.induct)
  case (1 g e h gs fs pv hs cl n)
  then show ?case by simp
next
  case (2 g e h gs fs pv f u os hs cl n)
  note wf = "2.prems"(1) and inv = "2.prems"(2) and nr = "2.prems"(3) and fin = "2.prems"(4)
  show ?case
  proof (cases "u \<in> hs")
    case False
    with "2.hyps"(1)[OF False wf inv nr fin] show ?thesis by simp
  next
    case True
    with inv have uk: "u \<in> graph_keys g" and ur: "reachable g s u"
      by (auto simp: astar_reach_inv_def)
    from ur nr have ne: "u \<noteq> e" by auto
    from inv have inv': "astar_reach_inv g s gs (hs - {u})"
      by (auto simp: astar_reach_inv_def)
    from astar_relax_reach[OF wf uk ur fin subset_refl inv', of "insert u cl" fs pv os]
    obtain gs' fs' pv' os' hs' where
      r: "astar_relax h u (insert u cl) (get_neighbors g u) (gs, fs, pv, os, hs - {u})
          = Inr (gs', fs', pv', os', hs')"
      and i: "astar_reach_inv g s gs' hs'" by blast
    have t: "\<not> u \<notin> hs" using True by simp
    from "2.hyps"(2)[OF t ne r refl refl refl refl wf i nr fin] True ne r show ?thesis by simp
  qed
qed

lemma get_neighbors_init: "get_neighbors Graph_init u = []"
  by (simp add: get_neighbors_def Graph_init_def)

lemma arc_add_edge:
  "(t, w) \<in> set (get_neighbors (add_edge g a b w' bi) u) \<Longrightarrow>
   (t, w) \<in> set (get_neighbors g u) \<or> t = a \<or> t = b"
  by (auto simp: get_neighbors_add_edge split: if_splits)

lemma path_from_target:
  "path_from g s p w d t \<Longrightarrow> t = s \<or> (\<exists>u x. (t, x) \<in> set (get_neighbors g u))"
  by (induction rule: path_from.induct) auto

lemma island_unreachable: "\<not> reachable island_graph ''A'' ''Z''"
proof
  assume "reachable island_graph ''A'' ''Z''"
  then obtain p w d where "path_from island_graph ''A'' p w d ''Z''"
    by (auto simp: reachable_def)
  from path_from_target[OF this] obtain u x where
    "(''Z'', x) \<in> set (get_neighbors island_graph u)" by auto
  then have "(''Z'', x) \<in> set (get_neighbors line_graph u)"
    by (simp add: island_graph_def get_neighbors_add_node)
  then show False
    unfolding line_graph_def
    by (auto dest!: arc_add_edge simp: get_neighbors_add_node get_neighbors_init)
qed

lemma far_unreachable: "\<not> reachable far_graph ''A'' ''Z''"
proof
  assume "reachable far_graph ''A'' ''Z''"
  then obtain p w d where "path_from far_graph ''A'' p w d ''Z''"
    by (auto simp: reachable_def)
  from path_from_target[OF this] obtain u x where
    "(''Z'', x) \<in> set (get_neighbors far_graph u)" by auto
  then show False
    by (simp add: far_graph_def get_neighbors_add_node get_neighbors_init)
qed

lemma far_heuristic: "euclidean_heuristic far_graph ''A'' ''Z'' = Inl OverflowError"
proof -
  have sq: "to_double (2 ^ 600 * 2 ^ 600) = PosInf"
    by (simp add: to_double_def overflow_threshold_def)
  have sub: "float_sub (2 ^ 600) 0 = Fin (2 ^ 600)"
    unfolding float_sub_def diff_zero by (rule to_double_pow2) simp
  have pos: "fmlookup (node_positions far_graph) ''A'' = Some (0, 0)"
    "fmlookup (node_positions far_graph) ''Z'' = Some (2 ^ 600, 0)"
    by (simp_all add: far_graph_def position_add_node Graph_init_def)
  show ?thesis
    unfolding euclidean_heuristic_def pos
    by (simp only: option.simps prod.case sub float_square.simps sq pyfloat.simps sum.simps)
qed



lemma island_heuristic_finite:
  "\<forall>n \<in> graph_keys island_graph.
     \<exists>x. select_heuristic ''euclidean'' island_graph n ''Z'' = Inr (Fin x)"
proof
  fix n assume "n \<in> graph_keys island_graph"
  then have n: "n = ''A'' \<or> n = ''B'' \<or> n = ''C'' \<or> n = ''Z''"
    by (auto simp: island_graph_def line_graph_def keys_add_node keys_add_edge Graph_init_def)
  have pos: "fmlookup (node_positions island_graph) ''A'' = Some (0, 0)"
    "fmlookup (node_positions island_graph) ''B'' = Some (1, 0)"
    "fmlookup (node_positions island_graph) ''C'' = Some (2, 0)"
    "fmlookup (node_positions island_graph) ''Z'' = Some (7, 7)"
    by (simp_all add: island_graph_def line_graph_def position_add_node position_add_edge
        keys_add_node keys_add_edge Graph_init_def)
  have sq: "\<exists>x. to_double (sqrt y) = Fin x" if "0 \<le> y" "y \<le> 100" for y
  proof -
    have "sqrt y \<le> 10" by (rule real_le_lsqrt) (use that in simp_all)
    moreover have "0 \<le> sqrt y" using that by simp
    moreover have "(10::real) < 2 ^ 1023" by simp
    ultimately have "\<bar>sqrt y\<bar> < overflow_threshold"
      using overflow_threshold_large by linarith
    from to_double_finite[OF this] show ?thesis by blast
  qed
  from n show "\<exists>x. select_heuristic ''euclidean'' island_graph n ''Z'' = Inr (Fin x)"
    by (auto simp: select_heuristic_def euclidean_heuristic_def pos float_sub_def intro!: sq)
qed


section \<open>Uniform-cost search returns a shortest path\<close>

lemma chain_nodes: "chain g pv vis s v p w d \<Longrightarrow> set p \<subseteq> insert v vis"
  by (induction rule: chain.induct) auto

lemma chain_cong:
  "chain g pv vis s v p w d \<Longrightarrow> (\<forall>y \<in> set p. fmlookup pv' y = fmlookup pv y) \<Longrightarrow>
   vis \<subseteq> vis' \<Longrightarrow> chain g pv' vis' s v p w d"
proof (induction rule: chain.induct)
  case chain_start
  then show ?case by (auto intro: chain.chain_start)
next
  case (chain_step u p w d v x)
  then have "chain g pv' vis' s u p w d" by simp
  moreover from chain_step have "u \<in> vis'" "fmlookup pv' v = Some (Some u)" by auto
  ultimately show ?case using chain_step.hyps(4) by (rule chain.chain_step)
qed

lemma chain_path: "chain g pv vis s v p w d \<Longrightarrow> path_from g s p w d v"
  by (induction rule: chain.induct) (auto intro: path_from.intros)

lemma chain_reconstruct:
  "chain g pv vis s v p w d \<Longrightarrow> reconstruct pv (Some v) acc = Some (Inr (acc @ rev p))"
proof (induction arbitrary: acc rule: chain.induct)
  case chain_start
  have "reconstruct pv None (acc @ [s]) = Some (Inr (acc @ [s]))"
    by (subst reconstruct.simps) simp
  then show ?case using chain_start by (subst reconstruct.simps) simp
next
  case (chain_step u p w d v x)
  from chain_step.IH[of "acc @ [v]"] chain_step.hyps(3) show ?case
    by (subst reconstruct.simps) simp
qed

lemma nonneg_arc: "nonneg_weights g \<Longrightarrow> (v, w) \<in> set (get_neighbors g u) \<Longrightarrow> 0 \<le> w"
  by (fastforce simp: nonneg_weights_def)

lemma path_cost_ok: "path_from g s p w d t \<Longrightarrow> nonneg_weights g \<Longrightarrow> float_ok d"
proof (induction rule: path_from.induct)
  case path_start
  then show ?case by (simp add: round_to_grid_def)
next
  case (path_arc p w d u v x)
  from nonneg_arc[OF path_arc.prems path_arc.hyps(2)] path_arc.IH[OF path_arc.prems]
  show ?case by (simp add: float_add_ok)
qed

text \<open>
  Every path from the start passes a node whose tabled distance is at most the path's
  cost and that is either unvisited or the path's own end.
\<close>

lemma path_crosses_frontier:
  assumes nn: "nonneg_weights g" and t: "inv_tables g s ds pv"
    and v: "inv_visited g s lb vis ds" and r: "inv_relaxed g vis ds"
  shows "path_from g s p w d' x \<Longrightarrow>
         \<exists>y dy. fmlookup ds y = Some dy \<and> dy \<le> d' \<and> (y \<notin> vis \<or> y = x)"
proof (induction rule: path_from.induct)
  case path_start
  from t have "fmlookup ds s = Some (Fin 0)" by (simp add: inv_tables_def)
  then show ?case by auto
next
  case (path_arc p w d u y x)
  from nonneg_arc[OF nn path_arc.hyps(2)] have x: "0 \<le> x" .
  from path_cost_ok[OF path_arc.hyps(1) nn] have okd: "float_ok d" .
  from path_arc.IH obtain z dz where
    z: "fmlookup ds z = Some dz" "dz \<le> d" "z \<notin> vis \<or> z = u" by blast
  from t z(1) have okz: "float_ok dz" by (auto simp: inv_tables_def)
  show ?case
  proof (cases "z \<notin> vis")
    case True
    from z(2) float_add_ge[OF okd x] have "dz \<le> float_add d x" by simp
    with z(1) True show ?thesis by blast
  next
    case False
    with z have zu: "z = u" and uv: "u \<in> vis" by auto
    from r uv path_arc.hyps(2) z(1) zu obtain dv where
      dv: "fmlookup ds y = Some dv" "dv \<le> float_add dz x"
      by (fastforce simp: inv_relaxed_def)
    from dv(2) float_add_mono[OF okz z(2) x] have "dv \<le> float_add d x" by simp
    with dv(1) show ?thesis by blast
  qed
qed

lemma sorted_head_least:
  "sorted ((d, u) # pq) \<Longrightarrow> (d', v) \<in> set ((d, u) # pq) \<Longrightarrow> (d :: pyfloat) \<le> d'"
  by (auto simp: less_eq_prod_def)

text \<open>The entry popped for an unvisited node carries the node's tabled, minimal distance.\<close>

lemma pop_unvisited:
  assumes nn: "nonneg_weights g" and inv: "dinv g s lb vis vis (ds, pv, (d, u) # pq)"
    and nvis: "u \<notin> vis"
  shows "fmlookup ds u = Some d \<and> lb \<le> d \<and> d \<noteq> PosInf \<and>
         (\<forall>p w d'. path_from g s p w d' u \<longrightarrow> d \<le> d')"
proof -
  from inv have t: "inv_tables g s ds pv" and q: "inv_queue lb ds ((d, u) # pq)"
    and v: "inv_visited g s lb vis ds" and f: "inv_finite g s vis ds pv ((d, u) # pq)"
    and r: "inv_relaxed g vis ds"
    by (simp_all add: dinv_def)
  from q have srt: "sorted ((d, u) # pq)" and lb: "lb \<le> d" and dfin: "d \<noteq> PosInf"
    by (simp_all add: inv_queue_def)
  from q obtain du where du: "fmlookup ds u = Some du" "du \<le> d"
    by (auto simp: inv_queue_def)
  have least: "d \<le> dy" if "fmlookup ds y = Some dy" "dy \<noteq> PosInf" "y \<notin> vis" for y dy
  proof -
    from f that have "(dy, y) \<in> set ((d, u) # pq)" by (auto simp: inv_finite_def)
    from sorted_head_least[OF srt this] show ?thesis .
  qed
  from du(2) dfin have "du \<noteq> PosInf" by (cases du; cases d) simp_all
  from least[OF du(1) this nvis] du(2) have eq: "du = d" by simp
  have opt: "d \<le> d'" if "path_from g s p w d' u" for p w d'
  proof (cases "d' = PosInf")
    case True
    then show ?thesis by simp
  next
    case False
    from path_crosses_frontier[OF nn t v r that] obtain y dy where
      y: "fmlookup ds y = Some dy" "dy \<le> d'" "y \<notin> vis \<or> y = u" by blast
    from y(3) nvis have yv: "y \<notin> vis" by auto
    from y(2) False have "dy \<noteq> PosInf" by (cases dy; cases d') simp_all
    from least[OF y(1) this yv] y(2) show ?thesis by simp
  qed
  from du(1) eq lb dfin opt show ?thesis by blast
qed

lemma pop_visited:
  assumes inv: "dinv g s lb vis vis (ds, pv, (d, u) # pq)" and vis: "u \<in> vis"
  shows "dinv g s lb vis vis (ds, pv, pq)"
proof -
  from inv have q: "inv_queue lb ds ((d, u) # pq)"
    and f: "inv_finite g s vis ds pv ((d, u) # pq)"
    by (simp_all add: dinv_def)
  from q have q': "inv_queue lb ds pq" by (simp add: inv_queue_def)
  have f': "inv_finite g s vis ds pv pq"
    unfolding inv_finite_def
  proof (intro allI impI)
    fix v dv assume l: "fmlookup ds v = Some dv \<and> dv \<noteq> PosInf"
    with f have a: "v \<in> vis \<or> (dv, v) \<in> set ((d, u) # pq)"
      and c: "\<exists>p w. chain g pv vis s v p w dv"
      unfolding inv_finite_def by blast+
    from a vis have "v \<in> vis \<or> (dv, v) \<in> set pq" by auto
    with c show "(v \<in> vis \<or> (dv, v) \<in> set pq) \<and> (\<exists>p w. chain g pv vis s v p w dv)" by simp
  qed
  from inv q' f' show ?thesis by (simp add: dinv_def)
qed

lemma inv_finite_mono:
  assumes "inv_finite g s vis ds pv pq" and "vis \<subseteq> vis'"
    and "set pq \<subseteq> set pq' \<union> {(d, v). v \<in> vis'}"
  shows "inv_finite g s vis' ds pv pq'"
  unfolding inv_finite_def
proof (intro allI impI conjI)
  fix v dv
  assume l: "fmlookup ds v = Some dv \<and> dv \<noteq> PosInf"
  with assms(1) have a: "v \<in> vis \<or> (dv, v) \<in> set pq" and "\<exists>p w. chain g pv vis s v p w dv"
    unfolding inv_finite_def by blast+
  then obtain p w where "chain g pv vis s v p w dv" by blast
  from chain_cong[OF this _ assms(2), of pv] show "\<exists>p w. chain g pv vis' s v p w dv" by auto
  from a assms(2,3) show "v \<in> vis' \<or> (dv, v) \<in> set pq'" by auto
qed

text \<open>Popping an unvisited node and marking it visited, before its arcs are relaxed.\<close>

lemma pop_mark_visited:
  assumes nn: "nonneg_weights g" and inv: "dinv g s lb vis vis (ds, pv, (d, u) # pq)"
    and nvis: "u \<notin> vis"
  shows "dinv g s d vis (insert u vis) (ds, pv, pq)"
proof -
  from inv have t: "inv_tables g s ds pv" and q: "inv_queue lb ds ((d, u) # pq)"
    and v: "inv_visited g s lb vis ds" and f: "inv_finite g s vis ds pv ((d, u) # pq)"
    and r: "inv_relaxed g vis ds"
    by (simp_all add: dinv_def)
  from pop_unvisited[OF nn inv nvis] have du: "fmlookup ds u = Some d" and lb: "lb \<le> d"
    and dfin: "d \<noteq> PosInf"
    and opt: "\<forall>p w d'. path_from g s p w d' u \<longrightarrow> d \<le> d'" by simp_all
  from q have srt: "sorted ((d, u) # pq)" by (simp add: inv_queue_def)
  have q': "inv_queue d ds pq"
    unfolding inv_queue_def
  proof (intro conjI ballI)
    from srt show "sorted pq" by simp
    from q have "Fin 0 \<le> lb" by (simp add: inv_queue_def)
    from this lb show "Fin 0 \<le> d" by (rule order_trans)
    fix item assume i: "item \<in> set pq"
    obtain d' x where item: "item = (d', x)" by (cases item)
    with i have "(d', x) \<in> set ((d, u) # pq)" by simp
    from sorted_head_least[OF srt this] item show "d \<le> fst item" by simp
    from q i show "fst item \<noteq> PosInf" by (simp add: inv_queue_def)
    from q i show "\<exists>dv. fmlookup ds (snd item) = Some dv \<and> dv \<le> fst item"
      by (simp add: inv_queue_def)
  qed
  have v': "inv_visited g s d (insert u vis) ds"
    unfolding inv_visited_def
  proof
    fix x assume "x \<in> insert u vis"
    then show "\<exists>dx. fmlookup ds x = Some dx \<and> dx \<le> d \<and> dx \<noteq> PosInf \<and>
                 (\<forall>p w d'. path_from g s p w d' x \<longrightarrow> dx \<le> d')"
    proof
      assume "x = u"
      with du dfin opt show ?thesis by simp
    next
      assume "x \<in> vis"
      with v obtain dx where "fmlookup ds x = Some dx" "dx \<le> lb" "dx \<noteq> PosInf"
        "\<forall>p w d'. path_from g s p w d' x \<longrightarrow> dx \<le> d'"
        unfolding inv_visited_def by blast
      with lb show ?thesis by (intro exI[of _ dx]) simp
    qed
  qed
  have f': "inv_finite g s (insert u vis) ds pv pq"
    by (rule inv_finite_mono[OF f]) auto
  from t q' v' f' r show ?thesis by (auto simp: dinv_def)
qed

text \<open>One improving relaxation of the arc \<open>(v, w)\<close> out of the visited node \<open>u\<close>.\<close>

lemma relax_step:
  assumes nn: "nonneg_weights g"
    and inv: "dinv g s lb fin vis (ds, pv, pq)"
    and u: "u \<in> vis" "fmlookup ds u = Some lb"
    and arc: "(v, w) \<in> set (get_neighbors g u)"
    and dn: "fmlookup ds v = Some dn" and lt: "float_add lb w < dn"
  shows "dinv g s lb fin vis
           (fmupd v (float_add lb w) ds, fmupd v (Some u) pv, heappush pq (float_add lb w, v)) \<and>
         fmlookup (fmupd v (float_add lb w) ds) u = Some lb"
proof -
  let ?nd = "float_add lb w"
  let ?ds = "fmupd v ?nd ds" and ?pv = "fmupd v (Some u) pv"
  let ?pq = "heappush pq (?nd, v)"
  from inv have sub: "fin \<subseteq> vis" and t: "inv_tables g s ds pv" and q: "inv_queue lb ds pq"
    and vi: "inv_visited g s lb vis ds" and f: "inv_finite g s vis ds pv pq"
    and r: "inv_relaxed g fin ds"
    by (simp_all add: dinv_def)
  from nonneg_arc[OF nn arc] have w: "0 \<le> w" .
  from q have lb0: "Fin 0 \<le> lb" by (simp add: inv_queue_def)
  from t u(2) have oklb: "float_ok lb" by (auto simp: inv_tables_def)
  from float_add_ge[OF oklb w] have ge: "lb \<le> ?nd" .
  from float_add_ok[OF oklb w] have oknd: "float_ok ?nd" .
  from lt have ndfin: "?nd \<noteq> PosInf" by (cases dn) auto
  from vi u have lbfin: "lb \<noteq> PosInf" by (auto simp: inv_visited_def)
  have nvis: "v \<notin> vis"
  proof
    assume "v \<in> vis"
    with vi dn have "dn \<le> lb" by (auto simp: inv_visited_def)
    with lt ge show False by simp
  qed
  with u(1) have vu: "v \<noteq> u" by auto
  have vs: "v \<noteq> s"
  proof
    assume "v = s"
    with t dn have "dn = Fin 0" by (simp add: inv_tables_def)
    with lt ge lb0 show False by simp
  qed
  from dn have vdom: "v \<in> fmdom' ds" by (simp add: fmlookup_dom'_iff)
  have t': "inv_tables g s ?ds ?pv"
    using t vs vdom oknd by (auto simp: inv_tables_def)
  have q': "inv_queue lb ?ds ?pq"
    unfolding inv_queue_def
  proof (intro conjI ballI)
    from q show "sorted ?pq" by (simp add: inv_queue_def heappush_sorted)
    show "Fin 0 \<le> lb" by (rule lb0)
    fix item assume "item \<in> set ?pq"
    then have i: "item = (?nd, v) \<or> item \<in> set pq" by (simp add: heappush_set)
    from i q ge show "lb \<le> fst item" by (auto simp: inv_queue_def)
    from i q ndfin show "fst item \<noteq> PosInf" by (auto simp: inv_queue_def)
    from i show "\<exists>dv. fmlookup ?ds (snd item) = Some dv \<and> dv \<le> fst item"
    proof
      assume "item = (?nd, v)"
      then show ?thesis by simp
    next
      assume m: "item \<in> set pq"
      with q obtain dv where dv: "fmlookup ds (snd item) = Some dv" "dv \<le> fst item"
        by (auto simp: inv_queue_def)
      show ?thesis
      proof (cases "snd item = v")
        case True
        with dv dn lt show ?thesis by simp
      next
        case False
        with dv show ?thesis by simp
      qed
    qed
  qed
  have vi': "inv_visited g s lb vis ?ds"
    unfolding inv_visited_def
  proof
    fix x assume x: "x \<in> vis"
    with nvis have "x \<noteq> v" by auto
    with vi x show "\<exists>dx. fmlookup ?ds x = Some dx \<and> dx \<le> lb \<and> dx \<noteq> PosInf \<and>
               (\<forall>p w d'. path_from g s p w d' x \<longrightarrow> dx \<le> d')"
      unfolding inv_visited_def by simp
  qed
  have keep: "chain g ?pv vis s x p w' d" if c: "chain g pv vis s x p w' d" and x: "x \<noteq> v"
    for x p w' d
  proof -
    from chain_nodes[OF c] x nvis have "v \<notin> set p" by auto
    then have "\<forall>y \<in> set p. fmlookup ?pv y = fmlookup pv y" by auto
    from chain_cong[OF c this subset_refl] show ?thesis .
  qed
  have f': "inv_finite g s vis ?ds ?pv ?pq"
    unfolding inv_finite_def
  proof (intro allI impI)
    fix y dy assume l: "fmlookup ?ds y = Some dy \<and> dy \<noteq> PosInf"
    show "(y \<in> vis \<or> (dy, y) \<in> set ?pq) \<and> (\<exists>p w. chain g ?pv vis s y p w dy)"
    proof (cases "y = v")
      case True
      with l have dy: "dy = ?nd" by simp
      from f u(2) lbfin obtain p w0 where "chain g pv vis s u p w0 lb"
        unfolding inv_finite_def by blast
      from keep[OF this] vu have "chain g ?pv vis s u p w0 lb" by simp
      from chain_step[OF this u(1) _ arc]
      have "chain g ?pv vis s v (p @ [v]) (w0 + w) ?nd" by simp
      with True dy show ?thesis by (auto simp: heappush_set)
    next
      case False
      with l have l': "fmlookup ds y = Some dy \<and> dy \<noteq> PosInf" by simp
      with f have a: "y \<in> vis \<or> (dy, y) \<in> set pq" and "\<exists>p w. chain g pv vis s y p w dy"
        unfolding inv_finite_def by blast+
      then obtain p w0 where "chain g pv vis s y p w0 dy" by blast
      from keep[OF this False] a show ?thesis by (auto simp: heappush_set)
    qed
  qed
  have r': "inv_relaxed g fin ?ds"
    unfolding inv_relaxed_def
  proof (intro ballI allI impI)
    fix x a dx
    assume x: "x \<in> fin" and a: "a \<in> set (get_neighbors g x)"
      and l: "fmlookup ?ds x = Some dx"
    from x sub nvis have "x \<noteq> v" by auto
    with l have l': "fmlookup ds x = Some dx" by simp
    with r x a obtain dv where dv: "fmlookup ds (fst a) = Some dv" "dv \<le> float_add dx (snd a)"
      unfolding inv_relaxed_def by blast
    show "\<exists>dv. fmlookup ?ds (fst a) = Some dv \<and> dv \<le> float_add dx (snd a)"
    proof (cases "fst a = v")
      case True
      with dv dn lt show ?thesis by simp
    next
      case False
      with dv show ?thesis by simp
    qed
  qed
  from sub t' q' vi' f' r' have "dinv g s lb fin vis (?ds, ?pv, ?pq)" by (simp add: dinv_def)
  moreover from u(2) vu have "fmlookup ?ds u = Some lb" by simp
  ultimately show ?thesis by simp
qed

lemma dijkstra_relax_mono:
  "dijkstra_relax u d arcs (ds, pv, pq) = Inr (ds', pv', pq') \<Longrightarrow>
   fmlookup ds v = Some dv \<Longrightarrow>
   \<exists>dv'. fmlookup ds' v = Some dv' \<and> dv' \<le> dv"
proof (induction arcs arbitrary: ds pv pq dv)
  case Nil
  then show ?case by simp
next
  case (Cons a arcs)
  obtain x w where a: "a = (x, w)" by (cases a)
  from Cons.prems(1) a obtain dn where dn: "fmlookup ds x = Some dn"
    by (auto simp: Let_def split: option.splits)
  show ?case
  proof (cases "float_add d w < dn")
    case False
    with Cons.prems a dn Cons.IH[of ds pv pq dv] show ?thesis by (simp add: Let_def)
  next
    case True
    with Cons.prems(1) a dn have
      rest: "dijkstra_relax u d arcs
               (fmupd x (float_add d w) ds, fmupd x (Some u) pv, heappush pq (float_add d w, x))
             = Inr (ds', pv', pq')"
      by (simp add: Let_def)
    show ?thesis
    proof (cases "x = v")
      case False
      with Cons.prems(2) have "fmlookup (fmupd x (float_add d w) ds) v = Some dv" by simp
      from Cons.IH[OF rest this] show ?thesis .
    next
      case xv: True
      with dn Cons.prems(2) True have less: "float_add d w < dv" by auto
      from xv have "fmlookup (fmupd x (float_add d w) ds) v = Some (float_add d w)" by simp
      from Cons.IH[OF rest this] less show ?thesis by fastforce
    qed
  qed
qed

text \<open>The whole relaxation loop for the node \<open>u\<close> just visited, popped with key \<open>lb\<close>.\<close>

lemma relax_loop:
  assumes nn: "nonneg_weights g" and wf: "wf_graph g" and u: "u \<in> vis" "u \<in> graph_keys g"
  shows "set arcs \<subseteq> set (get_neighbors g u) \<Longrightarrow>
         dinv g s lb fin vis (ds, pv, pq) \<Longrightarrow> fmlookup ds u = Some lb \<Longrightarrow>
         \<exists>ds' pv' pq'. dijkstra_relax u lb arcs (ds, pv, pq) = Inr (ds', pv', pq') \<and>
            dinv g s lb fin vis (ds', pv', pq') \<and> fmlookup ds' u = Some lb \<and>
            (\<forall>arc \<in> set arcs. \<exists>dv. fmlookup ds' (fst arc) = Some dv \<and>
                dv \<le> float_add lb (snd arc))"
proof (induction arcs arbitrary: ds pv pq)
  case Nil
  then show ?case by simp
next
  case (Cons a arcs)
  obtain v w where a: "a = (v, w)" by (cases a)
  with Cons.prems(1) have arc: "(v, w) \<in> set (get_neighbors g u)"
    and sub: "set arcs \<subseteq> set (get_neighbors g u)" by auto
  note inv = Cons.prems(2) and lu = Cons.prems(3)
  from inv have "fmdom' ds = graph_keys g" by (simp add: dinv_def inv_tables_def)
  with wf_graph_arc[OF wf u(2) arc] have "v \<in> fmdom' ds" by simp
  from fmdom'_lookup[OF this] obtain dn where dn: "fmlookup ds v = Some dn" by blast
  have "\<exists>ds1 pv1 pq1.
          dijkstra_relax u lb (a # arcs) (ds, pv, pq) = dijkstra_relax u lb arcs (ds1, pv1, pq1) \<and>
          dinv g s lb fin vis (ds1, pv1, pq1) \<and> fmlookup ds1 u = Some lb \<and>
          (\<exists>dv. fmlookup ds1 v = Some dv \<and> dv \<le> float_add lb w)"
  proof (cases "float_add lb w < dn")
    case True
    from relax_step[OF nn inv u(1) lu arc dn True] a dn True show ?thesis
      by (intro exI[of _ "fmupd v (float_add lb w) ds"] exI[of _ "fmupd v (Some u) pv"]
          exI[of _ "heappush pq (float_add lb w, v)"]) (simp add: Let_def)
  next
    case False
    then have "dn \<le> float_add lb w" by simp
    with a dn False inv lu show ?thesis
      by (intro exI[of _ ds] exI[of _ pv] exI[of _ pq]) (simp add: Let_def)
  qed
  then obtain ds1 pv1 pq1 dv where
    eq: "dijkstra_relax u lb (a # arcs) (ds, pv, pq) = dijkstra_relax u lb arcs (ds1, pv1, pq1)"
    and inv1: "dinv g s lb fin vis (ds1, pv1, pq1)" and lu1: "fmlookup ds1 u = Some lb"
    and dv: "fmlookup ds1 v = Some dv" "dv \<le> float_add lb w" by blast
  from Cons.IH[OF sub inv1 lu1] obtain ds' pv' pq' where
    res: "dijkstra_relax u lb arcs (ds1, pv1, pq1) = Inr (ds', pv', pq')"
    and inv': "dinv g s lb fin vis (ds', pv', pq')" and lu': "fmlookup ds' u = Some lb"
    and rel: "\<forall>arc \<in> set arcs. \<exists>dv. fmlookup ds' (fst arc) = Some dv \<and>
                dv \<le> float_add lb (snd arc)"
    by blast
  from dijkstra_relax_mono[OF res dv(1)] dv(2)
  have "\<exists>dv. fmlookup ds' v = Some dv \<and> dv \<le> float_add lb w" by fastforce
  with rel a have "\<forall>arc \<in> set (a # arcs).
       \<exists>dv. fmlookup ds' (fst arc) = Some dv \<and> dv \<le> float_add lb (snd arc)" by simp
  with eq res inv' lu' show ?case by (intro exI[of _ ds'] exI[of _ pv'] exI[of _ pq']) simp
qed

lemma relax_finish:
  assumes inv: "dinv g s lb vis (insert u vis) (ds, pv, pq)"
    and lu: "fmlookup ds u = Some lb"
    and rel: "\<forall>arc \<in> set (get_neighbors g u).
                \<exists>dv. fmlookup ds (fst arc) = Some dv \<and> dv \<le> float_add lb (snd arc)"
  shows "dinv g s lb (insert u vis) (insert u vis) (ds, pv, pq)"
proof -
  from inv have r: "inv_relaxed g vis ds" by (simp add: dinv_def)
  have "inv_relaxed g (insert u vis) ds"
    unfolding inv_relaxed_def
  proof (intro ballI allI impI)
    fix x a dx
    assume x: "x \<in> insert u vis" and a: "a \<in> set (get_neighbors g x)"
      and l: "fmlookup ds x = Some dx"
    show "\<exists>dv. fmlookup ds (fst a) = Some dv \<and> dv \<le> float_add dx (snd a)"
    proof (cases "x = u")
      case True
      with l lu have "dx = lb" by simp
      with rel a True show ?thesis by simp
    next
      case False
      with x have "x \<in> vis" by simp
      with r a l show ?thesis unfolding inv_relaxed_def by blast
    qed
  qed
  with inv show ?thesis by (simp add: dinv_def)
qed

text \<open>
  The loop returns, and the distance it leaves for the end is at most the cost of every
  path to the end; when it is finite, the predecessor links from the end are a path of
  that cost.
\<close>

lemma dijkstra_loop_shortest:
  "nonneg_weights g \<Longrightarrow> wf_graph g \<Longrightarrow> e \<in> graph_keys g \<Longrightarrow>
   dinv g s lb vis vis (ds, pv, pq) \<Longrightarrow> e \<notin> vis \<Longrightarrow>
   \<exists>ds' pv' n' de.
      dijkstra_loop g e (ds, pv, pq, vis, n) = Inr (ds', pv', n') \<and>
      fmlookup ds' e = Some de \<and>
      (\<forall>p' w' d'. path_from g s p' w' d' e \<longrightarrow> de \<le> d') \<and>
      (de \<noteq> PosInf \<longrightarrow> (\<exists>p w vis'. chain g pv' vis' s e p w de))"
proof (induction g e "(ds, pv, pq, vis, n)" arbitrary: ds pv pq vis n lb
       rule: dijkstra_loop.induct)
  case (1 g e ds pv vis n)
  note nn = "1.prems"(1) and ek = "1.prems"(3) and inv = "1.prems"(4) and ev = "1.prems"(5)
  from inv have t: "inv_tables g s ds pv" and v: "inv_visited g s lb vis ds"
    and f: "inv_finite g s vis ds pv []" and r: "inv_relaxed g vis ds"
    by (simp_all add: dinv_def)
  have inf: "dy = PosInf" if "fmlookup ds y = Some dy" "y \<notin> vis" for y dy
    using f that unfolding inv_finite_def by fastforce
  from t ek have "e \<in> fmdom' ds" by (simp add: inv_tables_def)
  from fmdom'_lookup[OF this] obtain de where de: "fmlookup ds e = Some de" by blast
  from inf[OF de ev] have deinf: "de = PosInf" .
  have "de \<le> d'" if "path_from g s p' w' d' e" for p' w' d'
  proof -
    from path_crosses_frontier[OF nn t v r that] ev obtain y dy where
      y: "fmlookup ds y = Some dy" "dy \<le> d'" "y \<notin> vis" by blast
    from inf[OF y(1,3)] y(2) have "d' = PosInf" by (cases d') simp_all
    then show ?thesis by simp
  qed
  with de deinf show ?case by simp
next
  case (2 g e ds pv d u pq vis n)
  note nn = "2.prems"(1) and wf = "2.prems"(2) and ek = "2.prems"(3)
    and inv = "2.prems"(4) and ev = "2.prems"(5)
  show ?case
  proof (cases "u \<in> vis")
    case True
    from "2.hyps"(1)[OF True nn wf ek pop_visited[OF inv True] ev] True
    show ?thesis by simp
  next
    case nvis: False
    from pop_unvisited[OF nn inv nvis] have du: "fmlookup ds u = Some d"
      and dfin: "d \<noteq> PosInf"
      and opt: "\<forall>p w d'. path_from g s p w d' u \<longrightarrow> d \<le> d'" by simp_all
    show ?thesis
    proof (cases "u = e")
      case True
      from inv have "inv_finite g s vis ds pv ((d, u) # pq)" by (simp add: dinv_def)
      with du dfin obtain p w where "chain g pv vis s u p w d"
        unfolding inv_finite_def by blast
      with True nvis du opt show ?thesis by auto
    next
      case ne: False
      have ngt: "\<not> d > d" by simp
      from inv have "fmdom' ds = graph_keys g" by (simp add: dinv_def inv_tables_def)
      with du have uk: "u \<in> graph_keys g" by (auto simp: fmlookup_dom'_iff)
      from pop_mark_visited[OF nn inv nvis]
      have inv1: "dinv g s d vis (insert u vis) (ds, pv, pq)" .
      from relax_loop[OF nn wf _ uk subset_refl inv1 du]
      obtain ds' pv' pq' where
        r: "dijkstra_relax u d (get_neighbors g u) (ds, pv, pq) = Inr (ds', pv', pq')"
        and inv2: "dinv g s d vis (insert u vis) (ds', pv', pq')"
        and lu: "fmlookup ds' u = Some d"
        and rel: "\<forall>arc \<in> set (get_neighbors g u).
                    \<exists>dv. fmlookup ds' (fst arc) = Some dv \<and> dv \<le> float_add d (snd arc)"
        by blast
      from relax_finish[OF inv2 lu rel]
      have inv3: "dinv g s d (insert u vis) (insert u vis) (ds', pv', pq')" .
      from ev ne have ev': "e \<notin> insert u vis" by simp
      from "2.hyps"(3)[OF nvis ne du ngt r refl refl nn wf ek inv3 ev'] nvis ne du r
      show ?thesis by simp
    qed
  qed
qed

lemma dijkstra_initial:
  assumes "s \<in> graph_keys g"
  shows "dinv g s (Fin 0) {} {}
           (fmupd s (Fin 0) (fmmap (\<lambda>_. PosInf) (adjacency_list g)),
            fmmap (\<lambda>_. None) (adjacency_list g), [(Fin 0, s)])"
proof -
  let ?ds = "fmupd s (Fin 0) (fmmap (\<lambda>_. PosInf) (adjacency_list g))"
  let ?pv = "fmmap (\<lambda>_. None :: string option) (adjacency_list g)"
  from fmdom'_lookup[OF assms] obtain arcs where "fmlookup (adjacency_list g) s = Some arcs"
    by blast
  then have pvs: "fmlookup ?pv s = Some None" by simp
  have ok: "float_ok d" if "fmlookup ?ds v = Some d" for v d
    using that by (auto simp: round_to_grid_def split: if_splits)
  have t: "inv_tables g s ?ds ?pv"
    using assms pvs ok unfolding inv_tables_def by auto
  have q: "inv_queue (Fin 0) ?ds [(Fin 0, s)]" by (simp add: inv_queue_def)
  have v: "inv_visited g s (Fin 0) {} ?ds" by (simp add: inv_visited_def)
  have r: "inv_relaxed g {} ?ds" by (simp add: inv_relaxed_def)
  have f: "inv_finite g s {} ?ds ?pv [(Fin 0, s)]"
    unfolding inv_finite_def
  proof (intro allI impI)
    fix v dv assume "fmlookup ?ds v = Some dv \<and> dv \<noteq> PosInf"
    then have "v = s \<and> dv = Fin 0" by (auto split: if_splits)
    with chain_start[OF pvs, of g "{}"]
    show "(v \<in> {} \<or> (dv, v) \<in> set [(Fin 0, s)]) \<and> (\<exists>p w. chain g ?pv {} s v p w dv)"
      by auto
  qed
  from t q v r f show ?thesis by (simp add: dinv_def)
qed

lemma dijkstra_outcome:
  assumes wf: "wf_graph g" and nn: "nonneg_weights g"
    and sk: "start \<in> graph_keys g" and ek: "end \<in> graph_keys g"
  shows "\<exists>de. (\<forall>p w d. path_from g start p w d end \<longrightarrow> de \<le> d) \<and>
           (de = PosInf \<longrightarrow> dijkstra g start end = Some (Inr None)) \<and>
           (de \<noteq> PosInf \<longrightarrow>
              (\<exists>r w. dijkstra g start end = Some (Inr (Some r)) \<and> distance r = de \<and>
                 path_from g start (path r) w de end))"
proof -
  let ?ds = "fmupd start (Fin 0) (fmmap (\<lambda>_. PosInf) (adjacency_list g))"
  let ?pv = "fmmap (\<lambda>_. None :: string option) (adjacency_list g)"
  have ev: "end \<notin> {}" by simp
  from dijkstra_loop_shortest[OF nn wf ek dijkstra_initial[OF sk] ev, of 0]
  obtain ds' pv' n' de where
    l: "dijkstra_loop g end (?ds, ?pv, [(Fin 0, start)], {}, 0) = Inr (ds', pv', n')"
    and de: "fmlookup ds' end = Some de"
    and opt: "\<forall>p' w' d'. path_from g start p' w' d' end \<longrightarrow> de \<le> d'"
    and ch: "de \<noteq> PosInf \<longrightarrow> (\<exists>p w vis'. chain g pv' vis' start end p w de)" by blast
  have none: "dijkstra g start end = Some (Inr None)" if "de = PosInf"
    using sk ek l de that by (simp add: dijkstra_def Let_def del: dijkstra_loop.simps)
  have some: "\<exists>r w. dijkstra g start end = Some (Inr (Some r)) \<and> distance r = de \<and>
                 path_from g start (path r) w de end" if fin: "de \<noteq> PosInf"
  proof -
    from ch fin obtain p w vis' where c: "chain g pv' vis' start end p w de" by blast
    from chain_reconstruct[OF c, of "[]"]
    have rc: "reconstruct pv' (Some end) [] = Some (Inr (rev p))" by simp
    from sk ek l de rc fin have
      "dijkstra g start end =
         Some (Inr (Some \<lparr>path = p, distance = de, nodes_explored = n',
                          algorithm = ''dijkstra''\<rparr>))"
      by (simp add: dijkstra_def Let_def del: dijkstra_loop.simps)
    with chain_path[OF c] show ?thesis by auto
  qed
  from opt none some show ?thesis by blast
qed

lemma whole_nonneg:
  assumes "whole_weights g"
  shows "nonneg_weights g"
  unfolding nonneg_weights_def
proof (intro allI ballI)
  fix u arc assume "arc \<in> set (get_neighbors g u)"
  with assms have "snd arc \<in> \<nat>" unfolding whole_weights_def by blast
  then obtain n :: nat where "snd arc = real n" by (rule Nats_cases)
  then show "0 \<le> snd arc" by simp
qed

lemma whole_arc: "whole_weights g \<Longrightarrow> (v, x) \<in> set (get_neighbors g u) \<Longrightarrow> x \<in> \<nat>"
  by (fastforce simp: whole_weights_def)

lemma to_double_whole:
  assumes "x \<in> \<nat>" and "x < 2 ^ 53"
  shows "to_double x = Fin x"
proof -
  from assms(1) obtain n :: nat where n: "x = real n" by (rule Nats_cases)
  with assms(2) have "real n < 2 ^ 53" by simp
  then have "n < 2 ^ 53" by (metis of_nat_less_numeral_power_cancel_iff)
  then have "\<bar>int n\<bar> < 2 ^ 53" by simp
  from to_double_int[OF this] n show ?thesis by simp
qed

text \<open>
  With whole weights the floats add up exactly as long as the total stays below \<open>2^53\<close>,
  and a total of \<open>2^53\<close> or more gives a float of at least \<open>2^53\<close>.
\<close>

lemma path_cost_exact:
  "path_from g s p w d t \<Longrightarrow> whole_weights g \<Longrightarrow>
   w \<in> \<nat> \<and> (w < 2 ^ 53 \<longrightarrow> d = Fin w) \<and> (2 ^ 53 \<le> w \<longrightarrow> Fin (2 ^ 53) \<le> d)"
proof (induction rule: path_from.induct)
  case path_start
  then show ?case by simp
next
  case (path_arc p w d u v x)
  note wh = path_arc.prems
  from whole_nonneg[OF wh] have nn: "nonneg_weights g" .
  from whole_arc[OF wh path_arc.hyps(2)] have xn: "x \<in> \<nat>" .
  from nonneg_arc[OF nn path_arc.hyps(2)] have x0: "0 \<le> x" .
  from path_arc.IH[OF wh] have wn: "w \<in> \<nat>" and small: "w < 2 ^ 53 \<longrightarrow> d = Fin w"
    and large: "2 ^ 53 \<le> w \<longrightarrow> Fin (2 ^ 53) \<le> d" by simp_all
  from wn have w0: "0 \<le> w" by (auto elim: Nats_cases)
  from path_cost_ok[OF path_arc.hyps(1) nn] have okd: "float_ok d" .
  from wn xn have sum: "w + x \<in> \<nat>" by (rule Nats_add)
  have 1: "float_add d x = Fin (w + x)" if lt: "w + x < 2 ^ 53"
  proof -
    from lt x0 have "w < 2 ^ 53" by simp
    with small have "d = Fin w" by simp
    with to_double_whole[OF sum lt] show ?thesis by simp
  qed
  have 2: "Fin (2 ^ 53) \<le> float_add d x" if ge: "2 ^ 53 \<le> w + x"
  proof (cases "w < 2 ^ 53")
    case True
    with small have d: "d = Fin w" by simp
    have "to_double (2 ^ 53) \<le> to_double (w + x)"
      by (rule to_double_mono) (use ge in simp_all)
    with to_double_pow2[of 53] d show ?thesis by simp
  next
    case False
    with large have "Fin (2 ^ 53) \<le> d" by simp
    from this float_add_ge[OF okd x0] show ?thesis by (rule order_trans)
  qed
  from sum 1 2 show ?case by blast
qed

lemma get_neighbors_overflow:
  "get_neighbors overflow_graph u =
     (if u = ''S'' then [(''A'', huge)] else []) @ (if u = ''A'' then [(''E'', huge)] else [])"
  by (simp add: overflow_graph_def get_neighbors_add_edge get_neighbors_init)

lemma overflow_paths:
  "path_from overflow_graph ''S'' p w d t \<Longrightarrow>
   (t = ''S'' \<and> d = Fin 0) \<or> (t = ''A'' \<and> d = Fin huge) \<or> (t = ''E'' \<and> d = PosInf)"
proof (induction rule: path_from.induct)
  case path_start
  then show ?case by simp
next
  case (path_arc p w d u v x)
  from path_arc.hyps(2) have
    "(u = ''S'' \<and> v = ''A'' \<and> x = huge) \<or> (u = ''A'' \<and> v = ''E'' \<and> x = huge)"
    by (auto simp: get_neighbors_overflow split: if_splits)
  then show ?case
  proof
    assume a: "u = ''S'' \<and> v = ''A'' \<and> x = huge"
    with path_arc.IH have "d = Fin 0" by simp
    with a show ?thesis by (simp add: to_double_huge)
  next
    assume a: "u = ''A'' \<and> v = ''E'' \<and> x = huge"
    with path_arc.IH have "d = Fin huge" by simp
    with a show ?thesis by (simp only: float_add.simps to_double_huge_twice) simp
  qed
qed

lemma overflow_nonneg: "nonneg_weights overflow_graph"
  using huge_pos by (auto simp: nonneg_weights_def get_neighbors_overflow split: if_splits)

lemma overflow_path: "path_from overflow_graph ''S'' [''S'', ''A'', ''E''] (huge + huge) PosInf ''E''"
proof -
  have a1: "(''A'', huge) \<in> set (get_neighbors overflow_graph ''S'')"
    and a2: "(''E'', huge) \<in> set (get_neighbors overflow_graph ''A'')"
    by (simp_all add: get_neighbors_overflow)
  from path_arc[OF path_start a1]
  have "path_from overflow_graph ''S'' [''S'', ''A''] huge (Fin huge) ''A''"
    by (simp add: to_double_huge)
  from path_arc[OF this a2] show ?thesis
    by (simp only: float_add.simps to_double_huge_twice append.simps)
qed

lemma overflow_search: "dijkstra overflow_graph ''S'' ''E'' = Some (Inr None)"
proof -
  have twice: "to_double (2 * huge) = PosInf"
    using to_double_huge_twice by (simp only: mult_2)
  show ?thesis
    by (simp add: overflow_graph_def graph_eval search_eval to_double_huge
        to_double_huge_twice twice)
qed



lemma arc_add_edge_weight:
  "(t, w) \<in> set (get_neighbors (add_edge g a b w' bi) u) \<Longrightarrow>
   (t, w) \<in> set (get_neighbors g u) \<or> w = w'"
  by (auto simp: get_neighbors_add_edge split: if_splits)

lemma line_graph_whole: "whole_weights line_graph"
  unfolding whole_weights_def
proof (intro allI ballI)
  fix u arc assume a: "arc \<in> set (get_neighbors line_graph u)"
  obtain t w where arc: "arc = (t, w)" by (cases arc)
  from a arc have "(t, w) \<in> set (get_neighbors line_graph u)" by simp
  then have "w = 1 \<or> w = 2 \<or> w = 5"
    unfolding line_graph_def
    by (auto dest!: arc_add_edge_weight simp: get_neighbors_add_node get_neighbors_init)
  then have "w \<in> \<nat>" by auto
  with arc show "snd arc \<in> \<nat>" by simp
qed

lemma line_graph_path: "path_from line_graph ''A'' [''A'', ''C''] 5 (Fin 5) ''C''"
proof -
  have "(''C'', 5) \<in> set (get_neighbors line_graph ''A'')"
    by (simp add: line_graph_def get_neighbors_add_edge)
  from path_arc[OF path_start this] show ?thesis by simp
qed

lemma line_graph_search:
  "dijkstra line_graph ''A'' ''C'' =
     Some (Inr (Some \<lparr>path = [''A'', ''B'', ''C''], distance = Fin 3, nodes_explored = 3,
                      algorithm = ''dijkstra''\<rparr>))"
  by (simp add: line_graph_def graph_eval search_eval)


end
